theory Spec2Isabelle
  imports Complex_Main
begin

section \<open>Data model of \<open>self_play.py\<close>\<close>

text \<open>
  Python floats are modelled as \<^typ>\<open>real\<close>: rounding, overflow of \<open>math.exp\<close> and
  NaN are outside the model. Python objects of class \<open>Node\<close> live in a store (a list of
  node records); a reference to a node is its index in the store. References are only
  ever created by allocation, so they always point below the length of the store.
  The network, the environment and the samplers of \<open>numpy.random\<close> are collaborators:
  what they return is an input of the model, and a failure inside them is not modelled.
  Every exception that this code raises from its own data is a value of type \<open>error\<close>.
\<close>

type_synonym action = int
type_synonym ref = nat

datatype error = IndexError | ValueError | ZeroDivisionError | AttributeError | UnboundLocalError

subsection \<open>class MinMaxStats\<close>

text \<open>
  \<open>maximum\<close> starts at \<open>-float("inf")\<close> and \<open>minimum\<close> at \<open>float("inf")\<close>; \<open>update\<close>
  only ever stores finite values. \<open>None\<close> stands for the initial infinity of the field
  (\<open>-inf\<close> for \<open>maximum\<close>, \<open>+inf\<close> for \<open>minimum\<close>).
\<close>

record MinMaxStats =
  maximum :: "real option"
  minimum :: "real option"

definition MinMaxStats_init :: MinMaxStats where
  "MinMaxStats_init = \<lparr>maximum = None, minimum = None\<rparr>"

text \<open>\<open>max(self.maximum, value)\<close> with \<open>self.maximum = -inf\<close> is \<open>value\<close>; likewise for \<open>min\<close>.\<close>

definition MinMaxStats_update :: "MinMaxStats \<Rightarrow> real \<Rightarrow> MinMaxStats" where
  "MinMaxStats_update s v =
     s\<lparr>maximum := Some (case maximum s of None \<Rightarrow> v | Some hi \<Rightarrow> max hi v),
       minimum := Some (case minimum s of None \<Rightarrow> v | Some lo \<Rightarrow> min lo v)\<rparr>"

text \<open>The test \<open>self.maximum > self.minimum\<close>: false while either field is still infinite.\<close>

definition maximum_gt_minimum :: "MinMaxStats \<Rightarrow> bool" where
  "maximum_gt_minimum s =
     (case (maximum s, minimum s) of (Some hi, Some lo) \<Rightarrow> hi > lo | _ \<Rightarrow> False)"

definition MinMaxStats_normalize :: "MinMaxStats \<Rightarrow> real \<Rightarrow> real" where
  "MinMaxStats_normalize s v =
     (case (maximum s, minimum s) of
        (Some hi, Some lo) \<Rightarrow> if hi > lo then (v - lo) / (hi - lo) else v
      | _ \<Rightarrow> v)"

subsection \<open>class Node\<close>

text \<open>
  \<open>children\<close> is a Python dict from action to child node: an association list in insertion
  order, whose keys stay distinct because it is only ever changed by \<open>dict_set\<close>.
\<close>

record 'h Node =
  visit_count :: nat
  to_play :: int
  prior :: real
  value_sum :: real
  children :: "(action \<times> ref) list"
  hidden_state :: "'h option"
  reward :: real

type_synonym 'h store = "'h Node list"

definition Node_init :: "real \<Rightarrow> 'h Node" where
  "Node_init p =
     \<lparr>visit_count = 0, to_play = - 1, prior = p, value_sum = 0, children = [],
      hidden_state = None, reward = 0\<rparr>"

definition Node_expanded :: "'h Node \<Rightarrow> bool" where
  "Node_expanded n = (length (children n) > 0)"

definition Node_value :: "'h Node \<Rightarrow> real" where
  "Node_value n = (if visit_count n = 0 then 0 else value_sum n / real (visit_count n))"

text \<open>\<open>d[k] = v\<close> on a dict: an existing key keeps its place, a new key goes last.\<close>

fun dict_set :: "('k \<times> 'v) list \<Rightarrow> 'k \<Rightarrow> 'v \<Rightarrow> ('k \<times> 'v) list" where
  "dict_set [] k v = [(k, v)]"
| "dict_set ((k', v') # kvs) k v =
     (if k' = k then (k, v) # kvs else (k', v') # dict_set kvs k v)"

text \<open>\<open>{a: math.exp(policy_logits[0][a]) for a in actions}\<close>\<close>

definition policy_dict :: "(action \<Rightarrow> real) \<Rightarrow> action list \<Rightarrow> (action \<times> real) list" where
  "policy_dict policy_logits actions =
     foldl (\<lambda>d a. dict_set d a (exp (policy_logits a))) [] actions"

text \<open>One round of \<open>self.children[action] = Node(p / policy_sum)\<close>: the new node is allocated
  at the end of the store and then stored in the dict of node \<open>r\<close>.\<close>

definition add_child :: "ref \<Rightarrow> real \<Rightarrow> 'h store \<Rightarrow> action \<times> real \<Rightarrow> 'h store" where
  "add_child r policy_sum h ap =
     (let c = length h;
          h' = h @ [Node_init (snd ap / policy_sum)]
      in h'[r := (h' ! r)\<lparr>children := dict_set (children (h' ! r)) (fst ap) c\<rparr>])"

text \<open>
  \<open>Node.expand\<close>. The policy logits are a tensor produced by the network, indexed by the
  action; it is taken as a function of the action. \<open>policy_sum\<close> is a sum of exponentials,
  so the division cannot fail over the reals.
\<close>

definition Node_expand ::
  "'h store \<Rightarrow> ref \<Rightarrow> action list \<Rightarrow> real \<Rightarrow> (action \<Rightarrow> real) \<Rightarrow> 'h \<Rightarrow> 'h store" where
  "Node_expand h r actions rew policy_logits hs =
     (let h1 = h[r := (h ! r)\<lparr>reward := rew, hidden_state := Some hs\<rparr>];
          policy = policy_dict policy_logits actions;
          policy_sum = sum_list (map snd policy)
      in foldl (add_child r policy_sum) h1 policy)"

text \<open>
  \<open>Node.add_exploration_noise\<close>. The Dirichlet sample drawn by
  \<open>numpy.random.dirichlet\<close> is the input \<open>noise\<close> (so \<open>root_dirichlet_alpha\<close> plays no
  part); \<open>zip\<close> stops at the shorter list.
\<close>

definition mix_prior :: "real \<Rightarrow> 'h store \<Rightarrow> ref \<times> real \<Rightarrow> 'h store" where
  "mix_prior fr h cn =
     h[fst cn := (h ! fst cn)\<lparr>prior := prior (h ! fst cn) * (1 - fr) + snd cn * fr\<rparr>]"

definition Node_add_exploration_noise ::
  "'h store \<Rightarrow> ref \<Rightarrow> real \<Rightarrow> real list \<Rightarrow> 'h store" where
  "Node_add_exploration_noise h r exploration_fraction noise =
     foldl (mix_prior exploration_fraction) h (zip (map snd (children (h ! r))) noise)"

subsection \<open>class MCTS\<close>

record config =
  action_space :: "action list"
  discount :: real
  max_moves :: int
  num_simulations :: int
  pb_c_base :: real
  pb_c_init :: real
  root_exploration_fraction :: real

text \<open>The network, an external collaborator: its two inference functions return
  \<open>(value, reward, policy_logits, hidden_state)\<close>.\<close>

record ('o, 'h) model =
  initial_inference :: "'o \<Rightarrow> real \<times> real \<times> (action \<Rightarrow> real) \<times> 'h"
  recurrent_inference :: "'h \<Rightarrow> action \<Rightarrow> real \<times> real \<times> (action \<Rightarrow> real) \<times> 'h"

text \<open>
  \<open>MCTS.ucb_score\<close>. The division by \<open>pb_c_base\<close> raises \<open>ZeroDivisionError\<close> at 0 and
  \<open>math.log\<close> raises \<open>ValueError\<close> on a non-positive argument.
\<close>

definition MCTS_ucb_score ::
  "config \<Rightarrow> 'h Node \<Rightarrow> 'h Node \<Rightarrow> MinMaxStats \<Rightarrow> error + real" where
  "MCTS_ucb_score cfg parent child min_max_stats =
     (if pb_c_base cfg = 0 then Inl ZeroDivisionError
      else if (real (visit_count parent) + pb_c_base cfg + 1) / pb_c_base cfg \<le> 0
        then Inl ValueError
      else
        (let pb_c = ln ((real (visit_count parent) + pb_c_base cfg + 1) / pb_c_base cfg)
                      + pb_c_init cfg;
             pb_c = pb_c * (sqrt (real (visit_count parent)) / (real (visit_count child) + 1));
             prior_score = pb_c * prior child;
             value_score = MinMaxStats_normalize min_max_stats (Node_value child)
         in Inr (prior_score + value_score)))"

text \<open>
  \<open>>\<close> on the tuples \<open>(score, action, child)\<close>: the first component that differs decides.
  Two items of one dict never agree on the action, so the nodes are never compared.
\<close>

definition tuple_gt :: "real \<times> action \<times> ref \<Rightarrow> real \<times> action \<times> ref \<Rightarrow> bool" where
  "tuple_gt x y = (fst x > fst y \<or> (fst x = fst y \<and> fst (snd x) > fst (snd y)))"

text \<open>The builtin \<open>max\<close> over the generator: scores are computed item by item, and a later
  item replaces the best one only when strictly greater.\<close>

fun max_items ::
  "config \<Rightarrow> 'h store \<Rightarrow> 'h Node \<Rightarrow> MinMaxStats \<Rightarrow> (action \<times> ref) list
     \<Rightarrow> real \<times> action \<times> ref \<Rightarrow> error + real \<times> action \<times> ref" where
  "max_items cfg h parent mms [] best = Inr best"
| "max_items cfg h parent mms (ac # items) best =
     (case MCTS_ucb_score cfg parent (h ! snd ac) mms of
        Inl e \<Rightarrow> Inl e
      | Inr s \<Rightarrow>
          max_items cfg h parent mms items
            (if tuple_gt (s, fst ac, snd ac) best then (s, fst ac, snd ac) else best))"

definition MCTS_select_child ::
  "config \<Rightarrow> 'h store \<Rightarrow> ref \<Rightarrow> MinMaxStats \<Rightarrow> error + action \<times> ref" where
  "MCTS_select_child cfg h node min_max_stats =
     (case children (h ! node) of
        [] \<Rightarrow> Inl ValueError
      | ac # items \<Rightarrow>
          (case MCTS_ucb_score cfg (h ! node) (h ! snd ac) min_max_stats of
             Inl e \<Rightarrow> Inl e
           | Inr s \<Rightarrow>
               (case max_items cfg h (h ! node) min_max_stats items (s, fst ac, snd ac) of
                  Inl e \<Rightarrow> Inl e
                | Inr best \<Rightarrow> Inr (snd best))))"

text \<open>\<open>MCTS.backpropagate\<close>: the loop \<open>for node in search_path\<close>, first element first.\<close>

fun MCTS_backpropagate ::
  "config \<Rightarrow> 'h store \<Rightarrow> ref list \<Rightarrow> real \<Rightarrow> MinMaxStats \<Rightarrow> 'h store \<times> MinMaxStats" where
  "MCTS_backpropagate cfg h [] v mms = (h, mms)"
| "MCTS_backpropagate cfg h (node # search_path) v mms =
     (let h1 = h[node := (h ! node)\<lparr>value_sum := value_sum (h ! node) + v\<rparr>];
          h2 = h1[node := (h1 ! node)\<lparr>visit_count := visit_count (h1 ! node) + 1\<rparr>];
          mms' = MinMaxStats_update mms (Node_value (h2 ! node));
          v' = reward (h2 ! node) + discount cfg * v
      in MCTS_backpropagate cfg h2 search_path v' mms')"

text \<open>
  The inner loop of \<open>MCTS.run\<close>: \<open>while node.expanded(): ...\<close>. It returns the leaf, the
  search path and the last action (\<open>None\<close> while the name \<open>last_action\<close> is unbound).
\<close>

partial_function (option) descend ::
  "config \<Rightarrow> 'h store \<Rightarrow> MinMaxStats \<Rightarrow> ref \<Rightarrow> ref list \<Rightarrow> action option
     \<Rightarrow> (error + ref \<times> ref list \<times> action option) option" where
  "descend cfg h mms node search_path last_action =
     (if Node_expanded (h ! node) then
        (case MCTS_select_child cfg h node mms of
           Inl e \<Rightarrow> Some (Inl e)
         | Inr ac \<Rightarrow> descend cfg h mms (snd ac) (search_path @ [snd ac]) (Some (fst ac)))
      else Some (Inr (node, search_path, last_action)))"

text \<open>
  One round of \<open>for _ in range(self.config.num_simulations)\<close>. \<open>search_path[-2]\<close> raises
  \<open>IndexError\<close> on a path of one node; reading \<open>last_action\<close> before the inner loop has
  bound it raises \<open>UnboundLocalError\<close>; \<open>parent.hidden_state.device\<close> raises
  \<open>AttributeError\<close> on \<open>None\<close>.
\<close>

definition simulate ::
  "config \<Rightarrow> ('o, 'h) model \<Rightarrow> 'h store \<times> MinMaxStats
     \<Rightarrow> (error + 'h store \<times> MinMaxStats) option" where
  "simulate cfg m hs =
     (case descend cfg (fst hs) (snd hs) 0 [0] None of
        None \<Rightarrow> None
      | Some (Inl e) \<Rightarrow> Some (Inl e)
      | Some (Inr (node, search_path, last_action)) \<Rightarrow>
          (if length search_path < 2 then Some (Inl IndexError)
           else
             (let parent = search_path ! (length search_path - 2) in
              case last_action of
                None \<Rightarrow> Some (Inl UnboundLocalError)
              | Some la \<Rightarrow>
                  (case hidden_state (fst hs ! parent) of
                     None \<Rightarrow> Some (Inl AttributeError)
                   | Some hid \<Rightarrow>
                       (case recurrent_inference m hid la of
                          (v, rew, policy_logits, hid') \<Rightarrow>
                            (let h1 = Node_expand (fst hs) node (action_space cfg) rew
                                        policy_logits hid'
                             in Some (Inr (MCTS_backpropagate cfg h1 search_path v
                                             (snd hs)))))))))"

fun simulations ::
  "nat \<Rightarrow> config \<Rightarrow> ('o, 'h) model \<Rightarrow> 'h store \<times> MinMaxStats
     \<Rightarrow> (error + 'h store \<times> MinMaxStats) option" where
  "simulations 0 cfg m hs = Some (Inr hs)"
| "simulations (Suc n) cfg m hs =
     (case simulate cfg m hs of
        None \<Rightarrow> None
      | Some (Inl e) \<Rightarrow> Some (Inl e)
      | Some (Inr hs') \<Rightarrow> simulations n cfg m hs')"

text \<open>
  \<open>MCTS.run\<close>. The root is the node at reference 0 of the returned store. The result is
  \<open>None\<close> when the search does not return.
\<close>

definition MCTS_run ::
  "config \<Rightarrow> ('o, 'h) model \<Rightarrow> 'o \<Rightarrow> bool \<Rightarrow> real list \<Rightarrow> (error + 'h store) option" where
  "MCTS_run cfg m observation add_exploration_noise noise =
     (case initial_inference m observation of
        (v0, expected_reward, policy_logits, hid) \<Rightarrow>
          (let h0 = [Node_init 0];
               h1 = Node_expand h0 0 (action_space cfg) expected_reward policy_logits hid;
               h2 = (if add_exploration_noise
                     then Node_add_exploration_noise h1 0 (root_exploration_fraction cfg) noise
                     else h1)
           in case simulations (nat (num_simulations cfg)) cfg m (h2, MinMaxStats_init) of
                None \<Rightarrow> None
              | Some (Inl e) \<Rightarrow> Some (Inl e)
              | Some (Inr hs) \<Rightarrow> Some (Inr (fst hs))))"

subsection \<open>select\_action\<close>

text \<open>A temperature is a float: a finite number or \<open>float("inf")\<close>.\<close>

datatype temperature = Temp real | Inf

text \<open>\<open>numpy.argmax\<close>: the first position of the largest entry.\<close>

fun argmax_from :: "nat \<Rightarrow> nat \<Rightarrow> nat \<Rightarrow> nat list \<Rightarrow> nat" where
  "argmax_from best_i best_v i [] = best_i"
| "argmax_from best_i best_v i (x # xs) =
     (if x > best_v then argmax_from i x (Suc i) xs else argmax_from best_i best_v (Suc i) xs)"

definition argmax :: "nat list \<Rightarrow> error + nat" where
  "argmax xs = (case xs of [] \<Rightarrow> Inl ValueError | x # xs' \<Rightarrow> Inr (argmax_from 0 x 1 xs'))"

text \<open>
  \<open>numpy.random.choice(n, p=p)\<close> draws a uniform number \<open>u\<close> in \<open>[0,1)\<close> and returns the
  first position whose cumulative probability exceeds it; \<open>numpy.random.choice(n)\<close> returns
  a uniform position below \<open>n\<close>. The uniform draws are inputs of the model.
\<close>

fun cumsum :: "real \<Rightarrow> real list \<Rightarrow> real list" where
  "cumsum acc [] = []"
| "cumsum acc (x # xs) = (acc + x) # cumsum (acc + x) xs"

definition random_choice_p :: "real list \<Rightarrow> real \<Rightarrow> nat" where
  "random_choice_p p u = length (takeWhile (\<lambda>c. c \<le> u) (cumsum 0 p))"

definition random_choice :: "nat \<Rightarrow> real \<Rightarrow> nat" where
  "random_choice n u = nat \<lfloor>u * real n\<rfloor>"

definition index :: "'a list \<Rightarrow> nat \<Rightarrow> error + 'a" where
  "index xs i = (if i < length xs then Inr (xs ! i) else Inl IndexError)"

text \<open>
  \<open>select_action\<close>. With no child the array is empty and \<open>visit_counts[0]\<close> raises
  \<open>IndexError\<close>. A zero sum, or a zero count under a negative temperature, puts NaN among
  the probabilities, and \<open>numpy.random.choice\<close> raises \<open>ValueError\<close>. For
  \<open>float("inf")\<close> the exponent is 0, every weight is 1 and the first draw always succeeds;
  its result is then replaced by the uniform draw.
\<close>

definition select_action ::
  "'h store \<Rightarrow> ref \<Rightarrow> temperature \<Rightarrow> real \<Rightarrow> real \<Rightarrow> error + action" where
  "select_action h node temperature u1 u2 =
     (let counts = map (\<lambda>ac. visit_count (h ! snd ac)) (children (h ! node));
          actions = map fst (children (h ! node))
      in if children (h ! node) = [] then Inl IndexError
         else
           (case temperature of
              Temp t \<Rightarrow>
                (if t = 0 then
                   (case argmax counts of Inl e \<Rightarrow> Inl e | Inr action_pos \<Rightarrow> index actions action_pos)
                 else if t < 0 \<and> 0 \<in> set counts then Inl ValueError
                 else
                   (let visit_count_distribution = map (\<lambda>c. real c powr (1 / t)) counts;
                        total = sum_list visit_count_distribution
                    in if total = 0 then Inl ValueError
                       else index actions
                              (random_choice_p (map (\<lambda>x. x / total) visit_count_distribution) u1)))
            | Inf \<Rightarrow> index actions (random_choice (length actions) u2)))"

subsection \<open>class GameHistory\<close>

text \<open>The field \<open>discount\<close> of \<open>GameHistory\<close> is named \<open>gh_discount\<close>, apart from the
  configuration's.\<close>

record 'o GameHistory =
  observation_history :: "'o list"
  history :: "action list"
  rewards :: "real list"
  child_visits :: "real list list"
  root_values :: "real list"
  gh_discount :: real

definition GameHistory_init :: "real \<Rightarrow> 'o GameHistory" where
  "GameHistory_init d =
     \<lparr>observation_history = [], history = [], rewards = [], child_visits = [],
      root_values = [], gh_discount = d\<rparr>"

text \<open>The list comprehension of \<open>store_search_statistics\<close>: the division of two Python
  integers raises \<open>ZeroDivisionError\<close> when \<open>sum_visits\<close> is 0.\<close>

fun visit_fractions ::
  "'h store \<Rightarrow> (action \<times> ref) list \<Rightarrow> nat \<Rightarrow> action list \<Rightarrow> error + real list" where
  "visit_fractions h cs sum_visits [] = Inr []"
| "visit_fractions h cs sum_visits (a # as) =
     (case map_of cs a of
        None \<Rightarrow>
          (case visit_fractions h cs sum_visits as of
             Inl e \<Rightarrow> Inl e | Inr fs \<Rightarrow> Inr (0 # fs))
      | Some c \<Rightarrow>
          (if sum_visits = 0 then Inl ZeroDivisionError
           else
             (case visit_fractions h cs sum_visits as of
                Inl e \<Rightarrow> Inl e
              | Inr fs \<Rightarrow> Inr (real (visit_count (h ! c)) / real sum_visits # fs))))"

definition GameHistory_store_search_statistics ::
  "'o GameHistory \<Rightarrow> 'h store \<Rightarrow> ref \<Rightarrow> action list \<Rightarrow> error + 'o GameHistory" where
  "GameHistory_store_search_statistics gh h root_ref acts =
     (let sum_visits = sum_list (map (\<lambda>ac. visit_count (h ! snd ac)) (children (h ! root_ref)))
      in case visit_fractions h (children (h ! root_ref)) sum_visits acts of
           Inl e \<Rightarrow> Inl e
         | Inr fs \<Rightarrow>
             Inr (gh\<lparr>child_visits := child_visits gh @ [fs],
                     root_values := root_values gh @ [Node_value (h ! root_ref)]\<rparr>))"

subsection \<open>SelfPlay.play\_game\<close>

text \<open>The environment, an external collaborator, with its state passed explicitly. The
  local variable \<open>done\<close> of \<open>play_game\<close> is the field \<open>is_done\<close> of the loop state.\<close>

record ('g, 'o) environment =
  reset :: "'g \<Rightarrow> 'g \<times> 'o"
  step :: "'g \<Rightarrow> action \<Rightarrow> 'g \<times> 'o \<times> real \<times> bool"

record ('g, 'o) play_state =
  game :: 'g
  observation :: 'o
  is_done :: bool
  game_history :: "'o GameHistory"

text \<open>
  The body of the episode loop. The random draws of move \<open>k\<close> (the Dirichlet noise and the
  two uniform numbers of \<open>select_action\<close>) are \<open>rnd k\<close>. Rendering prints only.
\<close>

definition play_move ::
  "config \<Rightarrow> ('o, 'h) model \<Rightarrow> ('g, 'o) environment \<Rightarrow> (nat \<Rightarrow> real list \<times> real \<times> real)
     \<Rightarrow> temperature \<Rightarrow> ('g, 'o) play_state \<Rightarrow> (error + ('g, 'o) play_state) option" where
  "play_move cfg m env rnd temperature st =
     (let k = length (history (game_history st)) in
      case MCTS_run cfg m (observation st) True (fst (rnd k)) of
        None \<Rightarrow> None
      | Some (Inl e) \<Rightarrow> Some (Inl e)
      | Some (Inr h) \<Rightarrow>
          (case select_action h 0 temperature (fst (snd (rnd k))) (snd (snd (rnd k))) of
             Inl e \<Rightarrow> Some (Inl e)
           | Inr a \<Rightarrow>
               (case step env (game st) a of
                  (g', obs', rew, d') \<Rightarrow>
                    (let gh = game_history st;
                         gh1 = gh\<lparr>observation_history := observation_history gh @ [obs']\<rparr>;
                         gh2 = gh1\<lparr>rewards := rewards gh1 @ [rew]\<rparr>;
                         gh3 = gh2\<lparr>history := history gh2 @ [a]\<rparr>
                     in case GameHistory_store_search_statistics gh3 h 0 (action_space cfg) of
                          Inl e \<Rightarrow> Some (Inl e)
                        | Inr gh4 \<Rightarrow>
                            Some (Inr \<lparr>game = g', observation = obs', is_done = d',
                                       game_history = gh4\<rparr>)))))"

lemma store_search_statistics_history:
  "GameHistory_store_search_statistics gh h root_ref acts = Inr gh' \<Longrightarrow> history gh' = history gh"
  by (auto simp: GameHistory_store_search_statistics_def Let_def split: sum.splits)

lemma play_move_history:
  "play_move cfg m env rnd temperature st = Some (Inr st') \<Longrightarrow>
     length (history (game_history st')) = Suc (length (history (game_history st)))"
  by (auto simp: play_move_def Let_def
      split: option.splits sum.splits prod.splits dest!: store_search_statistics_history)

text \<open>\<open>while not done and len(game_history.history) < self.config.max_moves\<close>\<close>

function play_loop ::
  "config \<Rightarrow> ('o, 'h) model \<Rightarrow> ('g, 'o) environment \<Rightarrow> (nat \<Rightarrow> real list \<times> real \<times> real)
     \<Rightarrow> temperature \<Rightarrow> ('g, 'o) play_state \<Rightarrow> (error + ('g, 'o) play_state) option" where
  "play_loop cfg m env rnd temperature st =
     (if \<not> is_done st \<and> int (length (history (game_history st))) < max_moves cfg then
        (case play_move cfg m env rnd temperature st of
           None \<Rightarrow> None
         | Some (Inl e) \<Rightarrow> Some (Inl e)
         | Some (Inr st') \<Rightarrow> play_loop cfg m env rnd temperature st')
      else Some (Inr st))"
  by pat_completeness auto
termination
  by (relation "measure (\<lambda>(cfg, m, env, rnd, temperature, st).
          nat (max_moves cfg - int (length (history (game_history st)))))")
    (auto dest!: play_move_history)

declare play_loop.simps [simp del]

definition play_game ::
  "config \<Rightarrow> ('o, 'h) model \<Rightarrow> ('g, 'o) environment \<Rightarrow> (nat \<Rightarrow> real list \<times> real \<times> real)
     \<Rightarrow> temperature \<Rightarrow> 'g \<Rightarrow> (error + 'o GameHistory) option" where
  "play_game cfg m env rnd temperature g0 =
     (case reset env g0 of
        (g, obs) \<Rightarrow>
          (let gh = GameHistory_init (discount cfg);
               gh = gh\<lparr>observation_history := observation_history gh @ [obs]\<rparr>
           in case play_loop cfg m env rnd temperature
                     \<lparr>game = g, observation = obs, is_done = False, game_history = gh\<rparr> of
                None \<Rightarrow> None
              | Some (Inl e) \<Rightarrow> Some (Inl e)
              | Some (Inr st) \<Rightarrow> Some (Inr (game_history st))))"

subsection \<open>Auxiliary notions for the statements\<close>

text \<open>The keys of the dict built from a list of actions: each action once, in the order of
  its first occurrence.\<close>

definition dict_keys :: "'k list \<Rightarrow> 'k list" where
  "dict_keys ks = foldl (\<lambda>d k. if k \<in> set d then d else d @ [k]) [] ks"

text \<open>A sequence of dict assignments.\<close>

definition dict_set_all :: "('k \<times> 'v) list \<Rightarrow> ('k \<times> 'v) list \<Rightarrow> ('k \<times> 'v) list" where
  "dict_set_all cs kvs = foldl (\<lambda>d kv. dict_set d (fst kv) (snd kv)) cs kvs"

definition softmax_sum :: "(action \<Rightarrow> real) \<Rightarrow> action list \<Rightarrow> real" where
  "softmax_sum l as = (\<Sum>a\<in>set as. exp (l a))"

subsection \<open>A concrete search\<close>

text \<open>The scenario of the specification: action space \<open>[0,1,2]\<close>, one simulation, and a
  network whose initial policy logits give the priors \<open>[0.2, 0.5, 0.3]\<close>.\<close>

definition logits0 :: "action \<Rightarrow> real" where
  "logits0 a = (if a = 0 then ln (1 / 5) else if a = 1 then ln (1 / 2) else ln (3 / 10))"

definition cfg0 :: config where
  "cfg0 = \<lparr>action_space = [0, 1, 2], discount = 997 / 1000, max_moves = 1,
            num_simulations = 1, pb_c_base = 19652, pb_c_init = 5 / 4,
            root_exploration_fraction = 1 / 4\<rparr>"

definition model0 :: "(unit, unit) model" where
  "model0 = \<lparr>initial_inference = (\<lambda>_. (0, 0, logits0, ())),
              recurrent_inference = (\<lambda>_ _. (1 / 2, 1, (\<lambda>_. 0), ()))\<rparr>"

subsection \<open>Concrete roots for select\_action\<close>

text \<open>A root whose children have the visit counts \<open>{0:3, 1:7, 2:0}\<close>, and a root whose
  two children were never visited.\<close>

definition store_c7 :: "unit store" where
  "store_c7 =
     [(Node_init 0)\<lparr>children := [(0, 1), (1, 2), (2, 3)]\<rparr>,
      (Node_init (1 / 5))\<lparr>visit_count := 3\<rparr>,
      (Node_init (1 / 2))\<lparr>visit_count := 7\<rparr>,
      (Node_init (3 / 10))\<lparr>visit_count := 0\<rparr>]"


subsection \<open>The statements of the specification\<close>

text \<open>The UCB score as the specification writes it.\<close>

definition ucb_formula :: "config \<Rightarrow> 'h Node \<Rightarrow> 'h Node \<Rightarrow> MinMaxStats \<Rightarrow> real" where
  "ucb_formula cfg parent child mms =
     (ln ((real (visit_count parent) + pb_c_base cfg + 1) / pb_c_base cfg) + pb_c_init cfg)
       * sqrt (real (visit_count parent)) / (real (visit_count child) + 1) * prior child
     + MinMaxStats_normalize mms (Node_value child)"

text \<open>The order \<open>\<le>\<close> on the tuples \<open>(score, action, child)\<close>.\<close>

definition tuple_le :: "real \<times> action \<times> ref \<Rightarrow> real \<times> action \<times> ref \<Rightarrow> bool" where
  "tuple_le x y = (fst x < fst y \<or> (fst x = fst y \<and> fst (snd x) \<le> fst (snd y)))"

text \<open>Backpropagation as the docstring of \<open>MCTS.backpropagate\<close> and the specification
  describe it: up the tree, from the leaf to the root.\<close>

definition backpropagate_leaf_to_root ::
  "config \<Rightarrow> 'h store \<Rightarrow> ref list \<Rightarrow> real \<Rightarrow> MinMaxStats \<Rightarrow> 'h store \<times> MinMaxStats" where
  "backpropagate_leaf_to_root cfg h search_path v mms =
     MCTS_backpropagate cfg h (rev search_path) v mms"

text \<open>A root with one expanded child of reward 1, as the search path \<open>[root, child]\<close>
  reaches \<open>backpropagate\<close>.\<close>

definition store_bp :: "unit store" where
  "store_bp =
     [(Node_init 0)\<lparr>children := [(0, 1)], hidden_state := Some ()\<rparr>,
      (Node_init 1)\<lparr>reward := 1\<rparr>]"

text \<open>
  The shape of the stores that \<open>MCTS.run\<close> builds: the root is node 0; the children of a
  node were allocated after it; an expanded node holds a hidden state and one child per key
  of the dict built from the configured action space.
\<close>

definition wf_store :: "config \<Rightarrow> 'h store \<Rightarrow> bool" where
  "wf_store cfg h \<longleftrightarrow>
     0 < length h \<and>
     (\<forall>r<length h.
        (\<forall>ac\<in>set (children (h ! r)). r < snd ac \<and> snd ac < length h) \<and>
        (children (h ! r) \<noteq> [] \<longrightarrow>
           hidden_state (h ! r) \<noteq> None \<and>
           map fst (children (h ! r)) = dict_keys (action_space cfg)))"

text \<open>The result of the inner loop of \<open>MCTS.run\<close>.\<close>

definition descended ::
  "'h store \<Rightarrow> ref \<Rightarrow> ref list \<Rightarrow> action option \<Rightarrow> ref \<times> ref list \<times> action option \<Rightarrow> bool" where
  "descended h node sp la res \<longleftrightarrow>
     (case res of (leaf, sp', la') \<Rightarrow>
        \<exists>ext. sp' = sp @ ext
          \<and> (\<forall>x\<in>set ext. node < x \<and> x < length h)
          \<and> leaf = last sp' \<and> leaf < length h \<and> children (h ! leaf) = []
          \<and> (ext = [] \<longrightarrow> la' = la \<and> children (h ! node) = [])
          \<and> (ext \<noteq> [] \<longrightarrow> la' \<noteq> None \<and> children (h ! (sp' ! (length sp' - 2))) \<noteq> []))"

text \<open>The store on which the simulations of \<open>MCTS.run\<close> start: the root, expanded from
  the initial inference, with or without exploration noise.\<close>

definition root_store ::
  "config \<Rightarrow> ('o, 'h) model \<Rightarrow> 'o \<Rightarrow> bool \<Rightarrow> real list \<Rightarrow> 'h store" where
  "root_store cfg m obs add_exploration_noise noise =
     (case initial_inference m obs of
        (v0, expected_reward, policy_logits, hid) \<Rightarrow>
          (let h1 = Node_expand [Node_init 0] 0 (action_space cfg) expected_reward
                      policy_logits hid
           in if add_exploration_noise
              then Node_add_exploration_noise h1 0 (root_exploration_fraction cfg) noise
              else h1))"

text \<open>The store that \<open>MCTS.run\<close> returns on the concrete search above.\<close>

definition run0_result :: "unit store" where
  "run0_result =
     [\<lparr>visit_count = 1, to_play = - 1, prior = 0, value_sum = 1 / 2,
       children = [(0, 1), (1, 2), (2, 3)], hidden_state = Some (), reward = 0\<rparr>,
      Node_init (1 / 5), Node_init (1 / 2),
      \<lparr>visit_count = 1, to_play = - 1, prior = 3 / 10, value_sum = 997 / 2000,
       children = [(0, 4), (1, 5), (2, 6)], hidden_state = Some (), reward = 1\<rparr>,
      Node_init (1 / 3), Node_init (1 / 3), Node_init (1 / 3)]"

text \<open>The invariant of \<open>GameHistory\<close>, as the specification states it.\<close>

definition gh_invariant :: "'o GameHistory \<Rightarrow> bool" where
  "gh_invariant gh \<longleftrightarrow>
     length (history gh) = length (rewards gh)
     \<and> length (rewards gh) = length (child_visits gh)
     \<and> length (child_visits gh) = length (root_values gh)
     \<and> length (observation_history gh) = length (history gh) + 1"

text \<open>A concrete episode: an environment that ends after one step with reward 1, and fixed
  random draws.\<close>

definition env0 :: "(unit, unit) environment" where
  "env0 = \<lparr>reset = (\<lambda>g. (g, ())), step = (\<lambda>g a. (g, (), 1, True))\<rparr>"

definition rnd0 :: "nat \<Rightarrow> real list \<times> real \<times> real" where
  "rnd0 k = ([1 / 3, 1 / 3, 1 / 3], 1 / 2, 1 / 2)"

definition game0_result :: "unit GameHistory" where
  "game0_result =
     \<lparr>observation_history = [(), ()], history = [2], rewards = [1],
      child_visits = [[0, 0, 1]], root_values = [1 / 2], gh_discount = 997 / 1000\<rparr>"

text \<open>
  One backpropagation event of \<open>MCTS.run\<close>: from the state \<open>s\<close> of the search (store and
  Value Tracker), the inner loop finds a search path of at least two nodes, the network is
  asked at the parent's hidden state, the leaf is expanded, and \<open>s'\<close> is the result of the one
  call of \<open>MCTS.backpropagate\<close> on that path with the network's value.
\<close>

definition backprop_event ::
  "config \<Rightarrow> ('o, 'h) model \<Rightarrow> 'h store \<times> MinMaxStats \<Rightarrow> 'h store \<times> MinMaxStats \<Rightarrow> bool" where
  "backprop_event cfg m s s' \<longleftrightarrow>
     (\<exists>leaf search_path la hid v rew l hid'.
        descend cfg (fst s) (snd s) 0 [0] None = Some (Inr (leaf, search_path, Some la))
        \<and> 2 \<le> length search_path
        \<and> hidden_state (fst s ! (search_path ! (length search_path - 2))) = Some hid
        \<and> recurrent_inference m hid la = (v, rew, l, hid')
        \<and> s' = MCTS_backpropagate cfg
                 (Node_expand (fst s) leaf (action_space cfg) rew l hid') search_path v (snd s))"

text \<open>A chain of backpropagation events, one after the other from the state \<open>s\<close>, each
  raising the visit count of the root by one.\<close>

fun event_chain ::
  "config \<Rightarrow> ('o, 'h) model \<Rightarrow> 'h store \<times> MinMaxStats \<Rightarrow> ('h store \<times> MinMaxStats) list
     \<Rightarrow> bool" where
  "event_chain cfg m s [] = True"
| "event_chain cfg m s (s' # rest) =
     (backprop_event cfg m s s'
      \<and> visit_count (fst s' ! 0) = Suc (visit_count (fst s ! 0))
      \<and> event_chain cfg m s' rest)"

section \<open>MinMaxStats.normalize\<close>

text \<open>
  Claim C8. \<open>normalize(v)\<close> returns \<open>v\<close> unchanged before any \<open>update\<close> call and whenever
  \<open>maximum > minimum\<close> is false; once \<open>maximum > minimum\<close> it returns
  \<open>(v - minimum) / (maximum - minimum)\<close>, which lies in \<open>[0,1]\<close> for every \<open>v\<close> between
  \<open>minimum\<close> and \<open>maximum\<close>.
\<close>

theorem normalize_spec:
  "MinMaxStats_normalize MinMaxStats_init v = v
   \<and> (\<not> maximum_gt_minimum s \<longrightarrow> MinMaxStats_normalize s v = v)
   \<and> (maximum_gt_minimum s \<longrightarrow>
        (\<exists>hi lo. maximum s = Some hi \<and> minimum s = Some lo \<and> lo < hi
           \<and> MinMaxStats_normalize s v = (v - lo) / (hi - lo)
           \<and> (lo \<le> v \<and> v \<le> hi \<longrightarrow>
                0 \<le> MinMaxStats_normalize s v \<and> MinMaxStats_normalize s v \<le> 1)))"
proof (intro conjI impI)
  show "MinMaxStats_normalize MinMaxStats_init v = v"
    by (simp add: MinMaxStats_normalize_def MinMaxStats_init_def)
next
  assume "\<not> maximum_gt_minimum s"
  then show "MinMaxStats_normalize s v = v"
    by (auto simp: MinMaxStats_normalize_def maximum_gt_minimum_def split: option.splits)
next
  assume "maximum_gt_minimum s"
  then obtain hi lo where b: "maximum s = Some hi" "minimum s = Some lo" "lo < hi"
    by (auto simp: maximum_gt_minimum_def split: option.splits)
  then have n: "MinMaxStats_normalize s v = (v - lo) / (hi - lo)"
    by (simp add: MinMaxStats_normalize_def)
  have "lo \<le> v \<and> v \<le> hi \<longrightarrow> 0 \<le> (v - lo) / (hi - lo) \<and> (v - lo) / (hi - lo) \<le> 1"
    using b(3) by (simp add: divide_simps)
  with b n show "\<exists>hi lo. maximum s = Some hi \<and> minimum s = Some lo \<and> lo < hi
           \<and> MinMaxStats_normalize s v = (v - lo) / (hi - lo)
           \<and> (lo \<le> v \<and> v \<le> hi \<longrightarrow>
                0 \<le> MinMaxStats_normalize s v \<and> MinMaxStats_normalize s v \<le> 1)"
    by auto
qed

theorem normalize_spec_witness:
  "maximum_gt_minimum (MinMaxStats_update (MinMaxStats_update MinMaxStats_init 1) 3)
   \<and> MinMaxStats_normalize (MinMaxStats_update (MinMaxStats_update MinMaxStats_init 1) 3) 2 = 1 / 2
   \<and> \<not> maximum_gt_minimum (MinMaxStats_update MinMaxStats_init 1)
   \<and> MinMaxStats_normalize (MinMaxStats_update MinMaxStats_init 1) 2 = 2"
  using normalize_spec [of 2 "MinMaxStats_update (MinMaxStats_update MinMaxStats_init 1) 3"]
    normalize_spec [of 2 "MinMaxStats_update MinMaxStats_init 1"]
  by (simp add: MinMaxStats_update_def MinMaxStats_init_def maximum_gt_minimum_def)

section \<open>Dicts and Node.expand\<close>


lemma map_of_dict_set: "map_of (dict_set cs k v) = (map_of cs)(k \<mapsto> v)"
  by (induction cs) (auto simp: fun_eq_iff)

lemma dict_set_fresh: "k \<notin> fst ` set cs \<Longrightarrow> dict_set cs k v = cs @ [(k, v)]"
  by (induction cs) auto

lemma dict_set_tabulate:
  "dict_set (map (\<lambda>a. (a, f a)) ks) k (f k) =
     map (\<lambda>a. (a, f a)) (if k \<in> set ks then ks else ks @ [k])"
  by (induction ks) auto

lemma foldl_dict_set_tabulate:
  "foldl (\<lambda>d a. dict_set d a (f a)) (map (\<lambda>a. (a, f a)) ks) as =
     map (\<lambda>a. (a, f a)) (foldl (\<lambda>d k. if k \<in> set d then d else d @ [k]) ks as)"
proof (induction as arbitrary: ks)
  case Nil
  show ?case by simp
next
  case (Cons a as)
  show ?case
    using Cons.IH [of "if a \<in> set ks then ks else ks @ [a]"]
    by (simp only: foldl_Cons dict_set_tabulate)
qed

lemma policy_dict_tabulate:
  "policy_dict l as = map (\<lambda>a. (a, exp (l a))) (dict_keys as)"
  using foldl_dict_set_tabulate [of "\<lambda>a. exp (l a)" "[]" as]
  by (simp add: policy_dict_def dict_keys_def)

lemma foldl_keys_invariant:
  "distinct ks \<Longrightarrow>
     distinct (foldl (\<lambda>d k. if k \<in> set d then d else d @ [k]) ks as)
     \<and> set (foldl (\<lambda>d k. if k \<in> set d then d else d @ [k]) ks as) = set ks \<union> set as"
  by (induction as arbitrary: ks) auto

lemma distinct_dict_keys: "distinct (dict_keys as)"
  using foldl_keys_invariant [of "[]" as] by (simp add: dict_keys_def)

lemma set_dict_keys: "set (dict_keys as) = set as"
  using foldl_keys_invariant [of "[]" as] by (simp add: dict_keys_def)

lemma dict_keys_Nil_iff: "dict_keys as = [] \<longleftrightarrow> as = []"
  using set_dict_keys [of as] by (metis set_empty)

lemma length_add_child: "length (add_child r s h ap) = Suc (length h)"
  by (simp add: add_child_def Let_def)

lemma dict_set_all_simps:
  "dict_set_all cs [] = cs"
  "dict_set_all cs (kv # kvs) = dict_set_all (dict_set cs (fst kv) (snd kv)) kvs"
  by (simp_all add: dict_set_all_def)

lemma dict_set_all_fresh:
  "distinct (map fst kvs) \<Longrightarrow> fst ` set cs \<inter> fst ` set kvs = {} \<Longrightarrow>
     dict_set_all cs kvs = cs @ kvs"
proof (induction kvs arbitrary: cs)
  case Nil
  show ?case by (simp add: dict_set_all_simps)
next
  case (Cons kv kvs)
  have "dict_set cs (fst kv) (snd kv) = cs @ [kv]"
    using Cons.prems by (auto simp: dict_set_fresh)
  moreover have "dict_set_all (cs @ [kv]) kvs = (cs @ [kv]) @ kvs"
    using Cons.prems by (intro Cons.IH) auto
  ultimately show ?case by (simp add: dict_set_all_simps)
qed

lemma map_of_dict_set_all:
  "distinct (map fst kvs) \<Longrightarrow>
     map_of (dict_set_all cs kvs) k =
       (case map_of kvs k of Some v \<Rightarrow> Some v | None \<Rightarrow> map_of cs k)"
proof (induction kvs arbitrary: cs)
  case Nil
  show ?case by (simp add: dict_set_all_simps)
next
  case (Cons kv kvs)
  have "map_of kvs (fst kv) = None"
    using Cons.prems by (simp add: map_of_eq_None_iff)
  then show ?case
    using Cons.IH [of "dict_set cs (fst kv) (snd kv)"] Cons.prems
    by (cases kv) (auto simp: dict_set_all_simps map_of_dict_set split: option.splits)
qed

lemma foldl_add_child:
  assumes "r < length h"
  shows "foldl (add_child r s) h ps =
           h[r := (h ! r)\<lparr>children := dict_set_all (children (h ! r))
                      (zip (map fst ps) [length h ..< length h + length ps])\<rparr>]
           @ map (\<lambda>p. Node_init (snd p / s)) ps"
  using assms
proof (induction ps arbitrary: h)
  case Nil
  then show ?case by (simp add: dict_set_all_simps)
next
  case (Cons p ps)
  let ?h1 = "add_child r s h p"
  have h1: "?h1 = h[r := (h ! r)\<lparr>children := dict_set (children (h ! r)) (fst p) (length h)\<rparr>]
                   @ [Node_init (snd p / s)]"
    using Cons.prems
    by (auto simp: add_child_def Let_def nth_append list_update_append)
  have r1: "r < length ?h1" using Cons.prems by (simp add: length_add_child)
  have n1: "?h1 ! r = (h ! r)\<lparr>children := dict_set (children (h ! r)) (fst p) (length h)\<rparr>"
    using Cons.prems by (simp add: h1 nth_append)
  have up: "[length h ..< length h + length (p # ps)]
              = length h # [length ?h1 ..< length ?h1 + length ps]"
    by (simp add: length_add_child upt_rec)
  have "foldl (add_child r s) h (p # ps) = foldl (add_child r s) ?h1 ps" by simp
  also have "\<dots> = ?h1[r := (?h1 ! r)\<lparr>children := dict_set_all (children (?h1 ! r))
                    (zip (map fst ps) [length ?h1 ..< length ?h1 + length ps])\<rparr>]
           @ map (\<lambda>p. Node_init (snd p / s)) ps"
    using Cons.IH [OF r1] by simp
  also have "\<dots> = h[r := (h ! r)\<lparr>children := dict_set_all (children (h ! r))
                    (zip (map fst (p # ps)) [length h ..< length h + length (p # ps)])\<rparr>]
           @ map (\<lambda>p. Node_init (snd p / s)) (p # ps)"
    unfolding up n1 using Cons.prems(1)
    by (simp add: h1 list_update_append dict_set_all_simps)
  finally show ?case .
qed

lemma policy_sum_eq: "sum_list (map snd (policy_dict l as)) = softmax_sum l as"
proof -
  have "sum_list (map snd (policy_dict l as)) = sum_list (map (\<lambda>a. exp (l a)) (dict_keys as))"
    by (simp add: policy_dict_tabulate comp_def)
  also have "\<dots> = (\<Sum>a\<in>set (dict_keys as). exp (l a))"
    by (rule sum_list_distinct_conv_sum_set [OF distinct_dict_keys])
  finally show ?thesis by (simp add: set_dict_keys softmax_sum_def)
qed

lemma Node_expand_eq:
  assumes "r < length h"
  shows "Node_expand h r as rew l hs =
           h[r := (h ! r)\<lparr>reward := rew, hidden_state := Some hs,
                    children := dict_set_all (children (h ! r))
                      (zip (dict_keys as) [length h ..< length h + length (dict_keys as)])\<rparr>]
           @ map (\<lambda>a. Node_init (exp (l a) / softmax_sum l as)) (dict_keys as)"
proof -
  let ?h1 = "h[r := (h ! r)\<lparr>reward := rew, hidden_state := Some hs\<rparr>]"
  have r1: "r < length ?h1" using assms by simp
  show ?thesis
    unfolding Node_expand_def Let_def policy_sum_eq
    using assms
    by (simp add: foldl_add_child [OF r1] policy_dict_tabulate comp_def)
qed

lemma Node_expand_fresh:
  assumes "r < length h" "children (h ! r) = []"
  shows "Node_expand h r as rew l hs =
           h[r := (h ! r)\<lparr>reward := rew, hidden_state := Some hs,
                    children := zip (dict_keys as) [length h ..< length h + length (dict_keys as)]\<rparr>]
           @ map (\<lambda>a. Node_init (exp (l a) / softmax_sum l as)) (dict_keys as)"
  using assms
  by (simp add: Node_expand_eq dict_set_all_fresh distinct_dict_keys)


lemma softmax_sum_pos: "as \<noteq> [] \<Longrightarrow> 0 < softmax_sum l as"
  unfolding softmax_sum_def by (intro sum_pos) auto

lemma softmax_le_one: "a \<in> set as \<Longrightarrow> exp (l a) / softmax_sum l as \<le> 1"
proof -
  assume a: "a \<in> set as"
  then have "exp (l a) \<le> softmax_sum l as"
    unfolding softmax_sum_def
    by (intro member_le_sum) (auto intro: less_imp_le)
  moreover have "0 < softmax_sum l as"
    using a by (intro softmax_sum_pos) auto
  ultimately show ?thesis by simp
qed

lemma sum_list_softmax:
  assumes "as \<noteq> []"
  shows "sum_list (map (\<lambda>a. exp (l a) / softmax_sum l as) (dict_keys as)) = 1"
proof -
  have "sum_list (map (\<lambda>a. exp (l a) / softmax_sum l as) (dict_keys as))
          = (\<Sum>a\<in>set (dict_keys as). exp (l a) / softmax_sum l as)"
    by (rule sum_list_distinct_conv_sum_set [OF distinct_dict_keys])
  also have "\<dots> = (\<Sum>a\<in>set as. exp (l a)) / softmax_sum l as"
    by (simp add: set_dict_keys sum_divide_distrib)
  also have "\<dots> = 1"
    using softmax_sum_pos [OF assms, of l] by (simp add: softmax_sum_def)
  finally show ?thesis .
qed

text \<open>
  Claim C5. For every call of \<open>Node.expand\<close> on a node of the store with a non-empty list
  of actions: one node is created per action of the list, the dict of the expanded node maps
  each action to its new node, whose prior is \<open>exp\<close> of its logit divided by the sum of
  \<open>exp(logit)\<close> over the actions; every new prior lies in \<open>[0,1]\<close> and the new priors
  sum to 1.
\<close>

theorem expand_softmax:
  assumes "r < length h" and "as \<noteq> []"
  shows "length (Node_expand h r as rew l hs) = length h + card (set as)
    \<and> (\<forall>a\<in>set as. \<exists>c. map_of (children (Node_expand h r as rew l hs ! r)) a = Some c
          \<and> length h \<le> c \<and> c < length (Node_expand h r as rew l hs)
          \<and> prior (Node_expand h r as rew l hs ! c) = exp (l a) / (\<Sum>b\<in>set as. exp (l b)))
    \<and> (\<forall>c\<in>{length h ..< length (Node_expand h r as rew l hs)}.
          (\<exists>a\<in>set as. map_of (children (Node_expand h r as rew l hs ! r)) a = Some c)
          \<and> 0 \<le> prior (Node_expand h r as rew l hs ! c)
          \<and> prior (Node_expand h r as rew l hs ! c) \<le> 1)
    \<and> sum_list (map prior (drop (length h) (Node_expand h r as rew l hs))) = 1"
proof -
  let ?ks = "dict_keys as"
  let ?n = "length ?ks"
  let ?h' = "Node_expand h r as rew l hs"
  let ?refs = "[length h ..< length h + ?n]"
  let ?old = "h[r := (h ! r)\<lparr>reward := rew, hidden_state := Some hs,
                 children := dict_set_all (children (h ! r)) (zip ?ks ?refs)\<rparr>]"
  have eq: "?h' = ?old @ map (\<lambda>a. Node_init (exp (l a) / softmax_sum l as)) ?ks"
    by (rule Node_expand_eq [OF assms(1)])
  have n: "?n = card (set as)"
    using distinct_card [OF distinct_dict_keys, of as] by (simp add: set_dict_keys)
  have len: "length ?h' = length h + ?n" by (simp add: eq)
  have new: "?h' ! (length h + i) = Node_init (exp (l (?ks ! i)) / softmax_sum l as)"
    if "i < ?n" for i
    using that by (simp add: eq nth_append)
  have ch: "children (?h' ! r) = dict_set_all (children (h ! r)) (zip ?ks ?refs)"
    using assms(1) by (simp add: eq nth_append)
  have look: "map_of (children (?h' ! r)) (?ks ! i) = Some (length h + i)" if "i < ?n" for i
  proof -
    have "map_of (zip ?ks ?refs) (?ks ! i) = Some (?refs ! i)"
      using that by (intro map_of_zip_nth) (simp_all add: distinct_dict_keys)
    then show ?thesis
      using that by (simp add: ch map_of_dict_set_all distinct_dict_keys)
  qed
  have p1: "\<forall>a\<in>set as. \<exists>c. map_of (children (?h' ! r)) a = Some c
          \<and> length h \<le> c \<and> c < length ?h'
          \<and> prior (?h' ! c) = exp (l a) / (\<Sum>b\<in>set as. exp (l b))"
  proof
    fix a assume "a \<in> set as"
    then have "a \<in> set ?ks" by (simp add: set_dict_keys)
    then obtain i where i: "i < ?n" "?ks ! i = a" by (auto simp: in_set_conv_nth)
    have "prior (?h' ! (length h + i)) = exp (l a) / (\<Sum>b\<in>set as. exp (l b))"
      using new [OF i(1)] i(2) by (simp add: Node_init_def softmax_sum_def)
    with look [OF i(1)] i show "\<exists>c. map_of (children (?h' ! r)) a = Some c
          \<and> length h \<le> c \<and> c < length ?h'
          \<and> prior (?h' ! c) = exp (l a) / (\<Sum>b\<in>set as. exp (l b))"
      by (auto simp: len)
  qed
  have p2: "\<forall>c\<in>{length h ..< length ?h'}.
          (\<exists>a\<in>set as. map_of (children (?h' ! r)) a = Some c)
          \<and> 0 \<le> prior (?h' ! c) \<and> prior (?h' ! c) \<le> 1"
  proof
    fix c assume "c \<in> {length h ..< length ?h'}"
    then obtain i where i: "i < ?n" "c = length h + i"
      using len by (auto simp: le_iff_add)
    have mem: "?ks ! i \<in> set as"
      using i(1) set_dict_keys [of as] nth_mem by blast
    have "prior (?h' ! c) = exp (l (?ks ! i)) / softmax_sum l as"
      using new [OF i(1)] i(2) by (simp add: Node_init_def)
    moreover have "0 \<le> exp (l (?ks ! i)) / softmax_sum l as"
      using softmax_sum_pos [OF assms(2), of l] by simp
    ultimately show "(\<exists>a\<in>set as. map_of (children (?h' ! r)) a = Some c)
          \<and> 0 \<le> prior (?h' ! c) \<and> prior (?h' ! c) \<le> 1"
      using look [OF i(1)] i(2) mem softmax_le_one [OF mem, of l] by auto
  qed
  have "drop (length h) ?h' = map (\<lambda>a. Node_init (exp (l a) / softmax_sum l as)) ?ks"
    by (simp add: eq)
  then have p3: "sum_list (map prior (drop (length h) ?h')) = 1"
    using sum_list_softmax [OF assms(2), of l] by (simp add: comp_def Node_init_def)
  show ?thesis
    using len n p1 p2 p3 by simp
qed

theorem expand_softmax_witness:
  "(0::nat) < length [Node_init 0 :: unit Node] \<and> [0, 1, 2 :: action] \<noteq> []
   \<and> length (Node_expand [Node_init 0 :: unit Node] 0 [0, 1, 2] 0 logits0 ()) = 4
   \<and> map prior (drop 1 (Node_expand [Node_init 0 :: unit Node] 0 [0, 1, 2] 0 logits0 ()))
       = [1 / 5, 1 / 2, 3 / 10]
   \<and> sum_list (map prior (drop (length [Node_init 0 :: unit Node])
         (Node_expand [Node_init 0 :: unit Node] 0 [0, 1, 2] 0 logits0 ()))) = 1"
proof -
  have ev: "map prior (drop 1 (Node_expand [Node_init 0 :: unit Node] 0 [0, 1, 2] 0 logits0 ()))
       = [1 / 5, 1 / 2, 3 / 10]"
    by (simp add: Node_expand_def policy_dict_def add_child_def Node_init_def logits0_def Let_def)
  have len: "length (Node_expand [Node_init 0 :: unit Node] 0 [0, 1, 2] 0 logits0 ()) = 4"
    by (simp add: Node_expand_def policy_dict_def add_child_def Let_def)
  show ?thesis
    using expand_softmax [of 0 "[Node_init 0 :: unit Node]" "[0, 1, 2]" 0 logits0 "()"] ev len
    by simp
qed

section \<open>select\_action\<close>


lemma argmax_from_spec:
  assumes "length pre = i" "best_i < i" "pre ! best_i = best_v"
    "\<forall>j<i. pre ! j \<le> best_v" "\<forall>j<best_i. pre ! j < best_v"
  shows "argmax_from best_i best_v i xs < i + length xs
     \<and> (\<forall>j < i + length xs. (pre @ xs) ! j \<le> (pre @ xs) ! argmax_from best_i best_v i xs)
     \<and> (\<forall>j < argmax_from best_i best_v i xs.
            (pre @ xs) ! j < (pre @ xs) ! argmax_from best_i best_v i xs)"
  using assms
proof (induction xs arbitrary: pre i best_i best_v)
  case Nil
  then show ?case by simp
next
  case (Cons x xs)
  show ?case
  proof (cases "x > best_v")
    case True
    have "argmax_from i x (Suc i) xs < Suc i + length xs
     \<and> (\<forall>j < Suc i + length xs. ((pre @ [x]) @ xs) ! j \<le> ((pre @ [x]) @ xs) ! argmax_from i x (Suc i) xs)
     \<and> (\<forall>j < argmax_from i x (Suc i) xs.
            ((pre @ [x]) @ xs) ! j < ((pre @ [x]) @ xs) ! argmax_from i x (Suc i) xs)"
    proof (rule Cons.IH)
      show "length (pre @ [x]) = Suc i" using Cons.prems by simp
      show "i < Suc i" by simp
      show "(pre @ [x]) ! i = x" using Cons.prems by (simp add: nth_append)
      show "\<forall>j<Suc i. (pre @ [x]) ! j \<le> x"
        using Cons.prems True by (auto simp: nth_append less_Suc_eq intro: order_trans less_imp_le)
      show "\<forall>j<i. (pre @ [x]) ! j < x"
        using Cons.prems True by (auto simp: nth_append intro: le_less_trans)
    qed
    with True show ?thesis by simp
  next
    case False
    have "argmax_from best_i best_v (Suc i) xs < Suc i + length xs
     \<and> (\<forall>j < Suc i + length xs. ((pre @ [x]) @ xs) ! j \<le> ((pre @ [x]) @ xs) ! argmax_from best_i best_v (Suc i) xs)
     \<and> (\<forall>j < argmax_from best_i best_v (Suc i) xs.
            ((pre @ [x]) @ xs) ! j < ((pre @ [x]) @ xs) ! argmax_from best_i best_v (Suc i) xs)"
    proof (rule Cons.IH)
      show "length (pre @ [x]) = Suc i" using Cons.prems by simp
      show "best_i < Suc i" using Cons.prems by simp
      show "(pre @ [x]) ! best_i = best_v" using Cons.prems by (simp add: nth_append)
      show "\<forall>j<Suc i. (pre @ [x]) ! j \<le> best_v"
        using Cons.prems False by (auto simp: nth_append less_Suc_eq)
      show "\<forall>j<best_i. (pre @ [x]) ! j < best_v"
        using Cons.prems by (auto simp: nth_append)
    qed
    with False show ?thesis by simp
  qed
qed

lemma argmax_spec:
  assumes "xs \<noteq> []"
  shows "\<exists>pos. argmax xs = Inr pos \<and> pos < length xs
     \<and> (\<forall>j < length xs. xs ! j \<le> xs ! pos) \<and> (\<forall>j < pos. xs ! j < xs ! pos)"
proof -
  obtain x xs' where xs: "xs = x # xs'" using assms by (cases xs) auto
  have "argmax_from 0 x 1 xs' < 1 + length xs'
     \<and> (\<forall>j < 1 + length xs'. ([x] @ xs') ! j \<le> ([x] @ xs') ! argmax_from 0 x 1 xs')
     \<and> (\<forall>j < argmax_from 0 x 1 xs'. ([x] @ xs') ! j < ([x] @ xs') ! argmax_from 0 x 1 xs')"
    by (rule argmax_from_spec) auto
  then show ?thesis by (simp add: xs argmax_def)
qed

text \<open>
  Claim C7. With temperature 0, \<open>select_action\<close> returns, whatever the random draws, the
  action at the first position of the largest visit count among the root's children (in the
  order of the dict); for the visit counts \<open>{0:3, 1:7, 2:0}\<close> it returns action 1.
\<close>

theorem select_action_greedy:
  "(\<forall>u1 u2. select_action store_c7 0 (Temp 0) u1 u2 = Inr 1)
   \<and> (children (h ! node) \<noteq> [] \<longrightarrow>
        (\<exists>pos < length (children (h ! node)).
           select_action h node (Temp 0) u1 u2 = Inr (fst (children (h ! node) ! pos))
           \<and> (\<forall>j < length (children (h ! node)).
                 visit_count (h ! snd (children (h ! node) ! j))
                   \<le> visit_count (h ! snd (children (h ! node) ! pos)))
           \<and> (\<forall>j < pos.
                 visit_count (h ! snd (children (h ! node) ! j))
                   < visit_count (h ! snd (children (h ! node) ! pos)))))"
proof (intro conjI impI allI)
  fix u1 u2
  show "select_action store_c7 0 (Temp 0) u1 u2 = Inr 1"
    by (simp add: select_action_def store_c7_def Node_init_def argmax_def index_def)
next
  let ?cs = "children (h ! node)"
  let ?counts = "map (\<lambda>ac. visit_count (h ! snd ac)) ?cs"
  assume ne: "?cs \<noteq> []"
  then have "?counts \<noteq> []" by simp
  from argmax_spec [OF this] obtain pos where pos: "argmax ?counts = Inr pos" "pos < length ?cs"
    "\<forall>j < length ?cs. ?counts ! j \<le> ?counts ! pos" "\<forall>j < pos. ?counts ! j < ?counts ! pos"
    by auto
  have "select_action h node (Temp 0) u1 u2 = Inr (fst (?cs ! pos))"
    using ne pos(1,2) by (simp add: select_action_def index_def)
  with pos show "\<exists>pos < length ?cs.
           select_action h node (Temp 0) u1 u2 = Inr (fst (?cs ! pos))
           \<and> (\<forall>j < length ?cs.
                 visit_count (h ! snd (?cs ! j)) \<le> visit_count (h ! snd (?cs ! pos)))
           \<and> (\<forall>j < pos.
                 visit_count (h ! snd (?cs ! j)) < visit_count (h ! snd (?cs ! pos)))"
    by (intro exI [of _ pos]) auto
qed

theorem select_action_greedy_witness:
  "children (store_c7 ! 0) \<noteq> [] \<and> select_action store_c7 0 (Temp 0) (1 / 3) (2 / 3) = Inr 1"
  using select_action_greedy [of store_c7 0 "1 / 3" "2 / 3"]
  by (simp add: store_c7_def Node_init_def)














section \<open>MCTS.select\_child\<close>


lemma ucb_score_eq:
  "0 < pb_c_base cfg \<Longrightarrow> MCTS_ucb_score cfg p c mms = Inr (ucb_formula cfg p c mms)"
proof -
  assume b: "0 < pb_c_base cfg"
  have "0 < real (visit_count p) + pb_c_base cfg + 1"
    using b by (simp add: add_pos_nonneg add_nonneg_pos)
  then have "\<not> (real (visit_count p) + pb_c_base cfg + 1) / pb_c_base cfg \<le> 0"
    using b by (simp add: divide_le_0_iff not_le)
  then show ?thesis
    using b unfolding MCTS_ucb_score_def ucb_formula_def Let_def by simp
qed

lemma tuple_le_iff: "tuple_le x y \<longleftrightarrow> \<not> tuple_gt x y"
  by (auto simp: tuple_le_def tuple_gt_def)

lemma tuple_le_refl: "tuple_le x x"
  by (simp add: tuple_le_def)

lemma tuple_le_trans: "tuple_le x y \<Longrightarrow> tuple_le y z \<Longrightarrow> tuple_le x z"
  by (auto simp: tuple_le_def)

lemma tuple_gt_le: "tuple_gt x y \<Longrightarrow> tuple_le y x"
  by (auto simp: tuple_le_def tuple_gt_def)

lemma max_items_spec:
  assumes "0 < pb_c_base cfg"
  shows "\<exists>best'. max_items cfg h p mms items best = Inr best'
     \<and> (best' = best \<or> (\<exists>ac\<in>set items. best' = (ucb_formula cfg p (h ! snd ac) mms, fst ac, snd ac)))
     \<and> tuple_le best best'
     \<and> (\<forall>ac\<in>set items. tuple_le (ucb_formula cfg p (h ! snd ac) mms, fst ac, snd ac) best')"
proof (induction items arbitrary: best)
  case Nil
  show ?case by (simp add: tuple_le_refl)
next
  case (Cons ac items)
  let ?x = "(ucb_formula cfg p (h ! snd ac) mms, fst ac, snd ac)"
  let ?b = "if tuple_gt ?x best then ?x else best"
  from Cons.IH [of ?b] obtain best' where
    m: "max_items cfg h p mms items ?b = Inr best'" and
    o: "best' = ?b \<or> (\<exists>ac\<in>set items. best' = (ucb_formula cfg p (h ! snd ac) mms, fst ac, snd ac))" and
    l: "tuple_le ?b best'" and
    a: "\<forall>ac\<in>set items. tuple_le (ucb_formula cfg p (h ! snd ac) mms, fst ac, snd ac) best'"
    by blast
  have bx: "tuple_le best ?b" "tuple_le ?x ?b"
    by (auto simp: tuple_le_def tuple_gt_def)
  have "max_items cfg h p mms (ac # items) best = Inr best'"
    using m by (simp add: ucb_score_eq [OF assms])
  moreover have "best' = best \<or> (\<exists>ac'\<in>set (ac # items).
       best' = (ucb_formula cfg p (h ! snd ac') mms, fst ac', snd ac'))"
    using o by (auto split: if_splits)
  moreover have "tuple_le best best'"
    using bx(1) l by (rule tuple_le_trans)
  moreover have "tuple_le ?x best'"
    using bx(2) l by (rule tuple_le_trans)
  ultimately show ?case using a by auto
qed

text \<open>
  Claim C4. With a positive \<open>pb_c_base\<close>, \<open>MCTS.select_child\<close> on a node with children
  returns an item \<open>(action, child)\<close> of the node's dict whose UCB score, the formula of
  the specification, is maximal; among the items of maximal score it is the one with the
  largest action.
\<close>

theorem select_child_max:
  assumes "0 < pb_c_base cfg" and "children (h ! node) \<noteq> []"
  shows "\<exists>a c. MCTS_select_child cfg h node mms = Inr (a, c)
     \<and> (a, c) \<in> set (children (h ! node))
     \<and> MCTS_ucb_score cfg (h ! node) (h ! c) mms = Inr (ucb_formula cfg (h ! node) (h ! c) mms)
     \<and> (\<forall>ac\<in>set (children (h ! node)).
           ucb_formula cfg (h ! node) (h ! snd ac) mms < ucb_formula cfg (h ! node) (h ! c) mms
           \<or> (ucb_formula cfg (h ! node) (h ! snd ac) mms = ucb_formula cfg (h ! node) (h ! c) mms
                \<and> fst ac \<le> a))"
proof -
  obtain ac items where cs: "children (h ! node) = ac # items"
    using assms(2) by (cases "children (h ! node)") auto
  let ?x = "(ucb_formula cfg (h ! node) (h ! snd ac) mms, fst ac, snd ac)"
  from max_items_spec [OF assms(1), of h "h ! node" mms items ?x] obtain best' where
    m: "max_items cfg h (h ! node) mms items ?x = Inr best'" and
    o: "best' = ?x \<or> (\<exists>ac\<in>set items. best' = (ucb_formula cfg (h ! node) (h ! snd ac) mms, fst ac, snd ac))" and
    l: "tuple_le ?x best'" and
    a: "\<forall>ac\<in>set items. tuple_le (ucb_formula cfg (h ! node) (h ! snd ac) mms, fst ac, snd ac) best'"
    by blast
  have "\<exists>bc\<in>set (ac # items).
      best' = (ucb_formula cfg (h ! node) (h ! snd bc) mms, fst bc, snd bc)"
    using o by (elim disjE bexE) (simp, metis list.set_intros(2))
  then obtain bc where bc: "bc \<in> set (children (h ! node))"
      "best' = (ucb_formula cfg (h ! node) (h ! snd bc) mms, fst bc, snd bc)"
    unfolding cs by blast
  have sel: "MCTS_select_child cfg h node mms = Inr (fst bc, snd bc)"
    using m bc(2) by (simp add: MCTS_select_child_def cs ucb_score_eq [OF assms(1)])
  have all: "\<forall>ac'\<in>set (children (h ! node)).
      tuple_le (ucb_formula cfg (h ! node) (h ! snd ac') mms, fst ac', snd ac') best'"
    using l a by (simp add: cs)
  show ?thesis
    using sel bc all ucb_score_eq [OF assms(1), of "h ! node" "h ! snd bc" mms]
    by (intro exI [of _ "fst bc"] exI [of _ "snd bc"]) (auto simp: tuple_le_def)
qed

theorem select_child_max_witness:
  "0 < pb_c_base cfg0 \<and> children (store_c7 ! 0) \<noteq> []
   \<and> MCTS_select_child cfg0 store_c7 0 MinMaxStats_init = Inr (2, 3)"
proof -
  have "MCTS_select_child cfg0 store_c7 0 MinMaxStats_init = Inr (2, 3)"
    by (simp add: MCTS_select_child_def MCTS_ucb_score_def cfg0_def store_c7_def Node_init_def
        Let_def MinMaxStats_normalize_def MinMaxStats_init_def Node_value_def tuple_gt_def)
  then show ?thesis
    using select_child_max [of cfg0 store_c7 0 MinMaxStats_init]
    by (simp add: cfg0_def store_c7_def Node_init_def)
qed

section \<open>MCTS.backpropagate\<close>

text \<open>
  Claim C1. The specification and the docstring walk the search path from the leaf to the
  root. The code runs \<open>for node in search_path\<close>, root first: on the path
  \<open>[root, child]\<close> with value \<open>1/2\<close>, discount \<open>0.997\<close> and a child of reward 1, the root
  receives the undiscounted \<open>1/2\<close> and the child \<open>0.997 * 1/2\<close>, where the walk from the
  leaf gives the child \<open>1/2\<close> and the root \<open>1 + 0.997 * 1/2\<close>.
\<close>

theorem backpropagate_root_first:
  "map value_sum (fst (MCTS_backpropagate cfg0 store_bp [0, 1] (1 / 2) MinMaxStats_init))
     = [1 / 2, 997 / 2000]
   \<and> map value_sum (fst (backpropagate_leaf_to_root cfg0 store_bp [0, 1] (1 / 2) MinMaxStats_init))
     = [2997 / 2000, 1 / 2]"
  by (simp add: backpropagate_leaf_to_root_def store_bp_def cfg0_def Node_init_def Let_def)

section \<open>The search tree in the store\<close>


lemma wf_store_same_shape:
  assumes "wf_store cfg h" "length h' = length h"
    "\<And>r. r < length h \<Longrightarrow> children (h' ! r) = children (h ! r)"
    "\<And>r. r < length h \<Longrightarrow> hidden_state (h' ! r) = hidden_state (h ! r)"
  shows "wf_store cfg h'"
  using assms unfolding wf_store_def by simp

lemma wf_store_root: "wf_store cfg [Node_init p]"
  by (simp add: wf_store_def Node_init_def)

lemma wf_store_expand:
  assumes wf: "wf_store cfg h" and leaf: "leaf < length h" and un: "children (h ! leaf) = []"
  shows "wf_store cfg (Node_expand h leaf (action_space cfg) rew l hs)"
proof -
  let ?ks = "dict_keys (action_space cfg)"
  let ?n = "length ?ks"
  let ?refs = "[length h ..< length h + ?n]"
  let ?X = "(h ! leaf)\<lparr>reward := rew, hidden_state := Some hs, children := zip ?ks ?refs\<rparr>"
  let ?news = "map (\<lambda>a. Node_init (exp (l a) / softmax_sum l (action_space cfg)) :: 'a Node) ?ks"
  let ?h' = "Node_expand h leaf (action_space cfg) rew l hs"
  have eq: "?h' = h[leaf := ?X] @ ?news"
    by (rule Node_expand_fresh [OF leaf un])
  have len: "length ?h' = length h + ?n" by (simp add: eq)
  have "(\<forall>ac\<in>set (children (?h' ! r)). r < snd ac \<and> snd ac < length ?h') \<and>
        (children (?h' ! r) \<noteq> [] \<longrightarrow>
           hidden_state (?h' ! r) \<noteq> None \<and> map fst (children (?h' ! r)) = ?ks)"
    if r: "r < length ?h'" for r
  proof -
    consider "r = leaf" | "r < length h" "r \<noteq> leaf" | "length h \<le> r"
      by linarith
    then show ?thesis
    proof cases
      case 1
      have n: "?h' ! r = ?X" using leaf 1 by (simp add: eq nth_append)
      have "r < snd ac \<and> snd ac < length ?h'" if "ac \<in> set (zip ?ks ?refs)" for ac
      proof -
        have "snd ac \<in> set ?refs"
          using that by (metis in_set_zipE prod.collapse)
        then have "length h \<le> snd ac \<and> snd ac < length h + ?n" by simp
        then show ?thesis using leaf 1 len by linarith
      qed
      then show ?thesis by (simp add: n)
    next
      case 2
      then have same: "?h' ! r = h ! r" by (simp add: eq nth_append)
      from wf 2(1) have a: "\<forall>ac\<in>set (children (h ! r)). r < snd ac \<and> snd ac < length h"
        and b: "children (h ! r) \<noteq> [] \<longrightarrow>
           hidden_state (h ! r) \<noteq> None \<and> map fst (children (h ! r)) = ?ks"
        unfolding wf_store_def by blast+
      from a have "\<forall>ac\<in>set (children (h ! r)). r < snd ac \<and> snd ac < length h + ?n"
        by (auto intro: trans_less_add1)
      then show ?thesis
        unfolding same len using b by blast
    next
      case 3
      then have "r - length h < ?n" using r len by simp
      then have "?h' ! r = Node_init (exp (l (?ks ! (r - length h))) / softmax_sum l (action_space cfg))"
        using 3 by (simp add: eq nth_append)
      then show ?thesis by (simp add: Node_init_def)
    qed
  qed
  then show ?thesis
    using wf len unfolding wf_store_def by simp
qed

lemma expand_old_nodes:
  assumes "leaf < length h" "r \<noteq> leaf" "r < length h"
  shows "Node_expand h leaf as rew l hs ! r = h ! r"
  using assms by (simp add: Node_expand_eq nth_append)

lemma expand_expanded:
  assumes "leaf < length h" "children (h ! leaf) = []" "as \<noteq> []"
  shows "children (Node_expand h leaf as rew l hs ! leaf) \<noteq> []"
  using assms by (simp add: Node_expand_fresh nth_append dict_keys_Nil_iff)

lemma expand_fields:
  assumes "leaf < length h"
  shows "visit_count (Node_expand h leaf as rew l hs ! leaf) = visit_count (h ! leaf)"
  using assms by (simp add: Node_expand_eq nth_append)




text \<open>Exploration noise changes priors only.\<close>

lemma list_update_nth_cases:
  "xs[k := y] ! r = (if r = k \<and> k < length xs then y else xs ! r)"
  by (cases "k < length xs") (simp_all add: nth_list_update list_update_beyond)

lemma mix_prior_shape:
  "length (mix_prior fr h cn) = length h"
  "children (mix_prior fr h cn ! r) = children (h ! r)"
  "hidden_state (mix_prior fr h cn ! r) = hidden_state (h ! r)"
  "visit_count (mix_prior fr h cn ! r) = visit_count (h ! r)"
  by (simp_all add: mix_prior_def list_update_nth_cases)

lemma foldl_mix_prior_shape:
  "length (foldl (mix_prior fr) h cns) = length h
   \<and> children (foldl (mix_prior fr) h cns ! r) = children (h ! r)
   \<and> hidden_state (foldl (mix_prior fr) h cns ! r) = hidden_state (h ! r)
   \<and> visit_count (foldl (mix_prior fr) h cns ! r) = visit_count (h ! r)"
  by (induction cns arbitrary: h) (simp_all add: mix_prior_shape)

lemma noise_shape:
  "length (Node_add_exploration_noise h r0 fr noise) = length h"
  "children (Node_add_exploration_noise h r0 fr noise ! r) = children (h ! r)"
  "hidden_state (Node_add_exploration_noise h r0 fr noise ! r) = hidden_state (h ! r)"
  "visit_count (Node_add_exploration_noise h r0 fr noise ! r) = visit_count (h ! r)"
  by (simp_all add: Node_add_exploration_noise_def foldl_mix_prior_shape)




text \<open>Backpropagation changes value sums and visit counts only.\<close>

lemma backpropagate_shape:
  "length (fst (MCTS_backpropagate cfg h sp v mms)) = length h
   \<and> children (fst (MCTS_backpropagate cfg h sp v mms) ! r) = children (h ! r)
   \<and> hidden_state (fst (MCTS_backpropagate cfg h sp v mms) ! r) = hidden_state (h ! r)"
proof (induction sp arbitrary: h v mms)
  case Nil
  show ?case by simp
next
  case (Cons node sp)
  let ?h2 = "h[node := (h ! node)\<lparr>value_sum := value_sum (h ! node) + v,
                                   visit_count := Suc (visit_count (h ! node))\<rparr>]"
  have step: "MCTS_backpropagate cfg h (node # sp) v mms =
      MCTS_backpropagate cfg ?h2 sp (reward (?h2 ! node) + discount cfg * v)
        (MinMaxStats_update mms (Node_value (?h2 ! node)))"
    by (cases "node < length h") (simp_all add: Let_def list_update_beyond not_less)
  have sh: "length ?h2 = length h" "children (?h2 ! r) = children (h ! r)"
      "hidden_state (?h2 ! r) = hidden_state (h ! r)"
    by (simp_all add: list_update_nth_cases)
  show ?case
    unfolding step using Cons.IH [of ?h2] sh by simp
qed

lemma backpropagate_visit_count:
  "r < length h \<Longrightarrow>
     visit_count (fst (MCTS_backpropagate cfg h sp v mms) ! r)
       = visit_count (h ! r) + count_list sp r"
proof (induction sp arbitrary: h v mms)
  case Nil
  show ?case by simp
next
  case (Cons node sp)
  let ?h2 = "h[node := (h ! node)\<lparr>value_sum := value_sum (h ! node) + v,
                                   visit_count := Suc (visit_count (h ! node))\<rparr>]"
  have step: "MCTS_backpropagate cfg h (node # sp) v mms =
      MCTS_backpropagate cfg ?h2 sp (reward (?h2 ! node) + discount cfg * v)
        (MinMaxStats_update mms (Node_value (?h2 ! node)))"
    by (cases "node < length h") (simp_all add: Let_def list_update_beyond not_less)
  have r2: "r < length ?h2" using Cons.prems by simp
  have vc: "visit_count (?h2 ! r) = visit_count (h ! r) + (if node = r then 1 else 0)"
    using Cons.prems by (cases "r = node") simp_all
  show ?case
    unfolding step using Cons.IH [OF r2] vc by simp
qed

section \<open>The simulations of MCTS.run\<close>


lemma max_items_mem:
  "max_items cfg h p mms items best = Inr best' \<Longrightarrow>
     snd best' = snd best \<or> snd best' \<in> set items"
proof (induction items arbitrary: best)
  case Nil
  then show ?case by simp
next
  case (Cons ac items)
  from Cons.prems obtain s where
    s: "MCTS_ucb_score cfg p (h ! snd ac) mms = Inr s"
    by (cases "MCTS_ucb_score cfg p (h ! snd ac) mms") auto
  let ?b = "if tuple_gt (s, fst ac, snd ac) best then (s, fst ac, snd ac) else best"
  have "max_items cfg h p mms items ?b = Inr best'"
    using Cons.prems s by simp
  from Cons.IH [OF this] show ?case
    by (auto split: if_splits)
qed

lemma select_child_mem:
  assumes "MCTS_select_child cfg h node mms = Inr ac"
  shows "ac \<in> set (children (h ! node))"
proof -
  from assms obtain c items where cs: "children (h ! node) = c # items"
    by (cases "children (h ! node)") (auto simp: MCTS_select_child_def)
  from assms cs obtain s where
    s: "MCTS_ucb_score cfg (h ! node) (h ! snd c) mms = Inr s"
    by (cases "MCTS_ucb_score cfg (h ! node) (h ! snd c) mms")
      (auto simp: MCTS_select_child_def)
  from assms cs s obtain best' where
    b: "max_items cfg h (h ! node) mms items (s, fst c, snd c) = Inr best'" "ac = snd best'"
    by (cases "max_items cfg h (h ! node) mms items (s, fst c, snd c)")
      (auto simp: MCTS_select_child_def)
  from max_items_mem [OF b(1)] show ?thesis
    using b(2) cs by auto
qed

lemma select_child_returns:
  assumes "0 < pb_c_base cfg" "children (h ! node) \<noteq> []"
  shows "\<exists>ac. MCTS_select_child cfg h node mms = Inr ac"
proof -
  obtain c items where cs: "children (h ! node) = c # items"
    using assms(2) by (cases "children (h ! node)") auto
  from max_items_spec [OF assms(1), of h "h ! node" mms items
      "(ucb_formula cfg (h ! node) (h ! snd c) mms, fst c, snd c)"]
  obtain best' where "max_items cfg h (h ! node) mms items
      (ucb_formula cfg (h ! node) (h ! snd c) mms, fst c, snd c) = Inr best'"
    by blast
  then show ?thesis
    by (simp add: MCTS_select_child_def cs ucb_score_eq [OF assms(1)])
qed

lemma descend_spec:
  assumes wf: "wf_store cfg h"
  shows "node < length h \<Longrightarrow> sp \<noteq> [] \<Longrightarrow> last sp = node \<Longrightarrow>
     \<exists>res. descend cfg h mms node sp la = Some res
        \<and> (\<forall>x. res = Inr x \<longrightarrow> descended h node sp la x)
        \<and> (0 < pb_c_base cfg \<longrightarrow> (\<exists>x. res = Inr x))"
proof (induction "length h - node" arbitrary: node sp la rule: less_induct)
  case less
  show ?case
  proof (cases "children (h ! node) = []")
    case True
    then have "descend cfg h mms node sp la = Some (Inr (node, sp, la))"
      by (subst descend.simps) (simp add: Node_expanded_def)
    moreover have "descended h node sp la (node, sp, la)"
      using True less.prems by (simp add: descended_def)
    ultimately show ?thesis by simp
  next
    case False
    show ?thesis
    proof (cases "MCTS_select_child cfg h node mms")
      case (Inl e)
      then have "descend cfg h mms node sp la = Some (Inl e)"
        using False by (subst descend.simps) (simp add: Node_expanded_def)
      moreover have "\<not> 0 < pb_c_base cfg"
        using select_child_returns [OF _ False, of cfg mms] Inl by auto
      ultimately show ?thesis by simp
    next
      case (Inr ac)
      then have mem: "ac \<in> set (children (h ! node))" by (rule select_child_mem)
      then have c: "node < snd ac" "snd ac < length h"
        using wf less.prems(1) unfolding wf_store_def by blast+
      have unf: "descend cfg h mms node sp la
                   = descend cfg h mms (snd ac) (sp @ [snd ac]) (Some (fst ac))"
        using False Inr by (subst descend.simps) (simp add: Node_expanded_def)
      have "length h - snd ac < length h - node" using c by simp
      from less.hyps [OF this c(2), of "sp @ [snd ac]" "Some (fst ac)"]
      obtain res where
        r: "descend cfg h mms (snd ac) (sp @ [snd ac]) (Some (fst ac)) = Some res"
          "\<forall>x. res = Inr x \<longrightarrow> descended h (snd ac) (sp @ [snd ac]) (Some (fst ac)) x"
          "0 < pb_c_base cfg \<longrightarrow> (\<exists>x. res = Inr x)"
        by auto
      have "descended h node sp la x" if x: "res = Inr x" for x
      proof -
        obtain leaf sp' la' where xx: "x = (leaf, sp', la')" by (cases x) auto
        from r(2) x xx obtain ext where
          e: "sp' = (sp @ [snd ac]) @ ext"
            "\<forall>x\<in>set ext. snd ac < x \<and> x < length h"
            "leaf = last sp'" "leaf < length h" "children (h ! leaf) = []"
            "ext = [] \<longrightarrow> la' = Some (fst ac) \<and> children (h ! snd ac) = []"
            "ext \<noteq> [] \<longrightarrow> la' \<noteq> None \<and> children (h ! (sp' ! (length sp' - 2))) \<noteq> []"
          unfolding descended_def by auto
        have p1: "sp' = sp @ (snd ac # ext)" using e(1) by simp
        have p2: "\<forall>x\<in>set (snd ac # ext). node < x \<and> x < length h"
          using e(2) c by auto
        have p3: "la' \<noteq> None" using e(6,7) by (cases "ext = []") auto
        have p4: "children (h ! (sp' ! (length sp' - 2))) \<noteq> []"
        proof (cases "ext = []")
          case True
          then have "sp' ! (length sp' - 2) = last sp"
            using less.prems(2) by (simp add: e(1) nth_append last_conv_nth)
          then show ?thesis using False less.prems(3) by simp
        next
          case False
          then show ?thesis using e(7) by simp
        qed
        have "\<exists>ext'. sp' = sp @ ext'
          \<and> (\<forall>x\<in>set ext'. node < x \<and> x < length h)
          \<and> leaf = last sp' \<and> leaf < length h \<and> children (h ! leaf) = []
          \<and> (ext' = [] \<longrightarrow> la' = la \<and> children (h ! node) = [])
          \<and> (ext' \<noteq> [] \<longrightarrow> la' \<noteq> None \<and> children (h ! (sp' ! (length sp' - 2))) \<noteq> [])"
          using p1 p2 p3 p4 e(3,4,5) by (intro exI [of _ "snd ac # ext"]) simp
        then show ?thesis
          unfolding descended_def xx by simp
      qed
      then show ?thesis using r unf by simp
    qed
  qed
qed


lemma simulate_spec:
  assumes wf: "wf_store cfg h" and root: "children (h ! 0) \<noteq> []"
  shows "\<exists>res. simulate cfg m (h, mms) = Some res
     \<and> (\<forall>h' mms'. res = Inr (h', mms') \<longrightarrow>
           wf_store cfg h' \<and> children (h' ! 0) \<noteq> []
           \<and> visit_count (h' ! 0) = Suc (visit_count (h ! 0)))
     \<and> (0 < pb_c_base cfg \<longrightarrow> (\<exists>x. res = Inr x))"
proof -
  have len: "0 < length h" using wf by (simp add: wf_store_def)
  from descend_spec [OF wf len, of "[0]" mms None] obtain rd where
    d: "descend cfg h mms 0 [0] None = Some rd"
      "\<forall>x. rd = Inr x \<longrightarrow> descended h 0 [0] None x"
      "0 < pb_c_base cfg \<longrightarrow> (\<exists>x. rd = Inr x)"
    by auto
  show ?thesis
  proof (cases rd)
    case (Inl e)
    then have "simulate cfg m (h, mms) = Some (Inl e)"
      using d(1) by (simp add: simulate_def)
    then show ?thesis using d(3) Inl by auto
  next
    case (Inr x)
    obtain leaf sp' la' where x: "x = (leaf, sp', la')" by (cases x) auto
    from d(2) Inr x obtain ext where
      e: "sp' = [0] @ ext" "\<forall>y\<in>set ext. 0 < y \<and> y < length h"
        "leaf = last sp'" "leaf < length h" "children (h ! leaf) = []"
        "ext = [] \<longrightarrow> la' = None \<and> children (h ! 0) = []"
        "ext \<noteq> [] \<longrightarrow> la' \<noteq> None \<and> children (h ! (sp' ! (length sp' - 2))) \<noteq> []"
      unfolding descended_def by auto
    from e(6) root have ne: "ext \<noteq> []" by auto
    with e(7) obtain a where la: "la' = Some a" by auto
    let ?parent = "sp' ! (length sp' - 2)"
    have l2: "\<not> length sp' < 2" using ne e(1) by (cases ext) auto
    have "?parent \<in> set sp'" using l2 by (intro nth_mem) simp
    then have pl: "?parent < length h" using e(1,2) len by auto
    have "children (h ! ?parent) \<noteq> []" using e(7) ne by simp
    then have "hidden_state (h ! ?parent) \<noteq> None"
      using wf pl unfolding wf_store_def by blast
    then obtain hid where hid: "hidden_state (h ! ?parent) = Some hid" by auto
    obtain v rew l hid' where ri: "recurrent_inference m hid a = (v, rew, l, hid')"
      by (cases "recurrent_inference m hid a") auto
    let ?h1 = "Node_expand h leaf (action_space cfg) rew l hid'"
    let ?bp = "MCTS_backpropagate cfg ?h1 sp' v mms"
    have sim: "simulate cfg m (h, mms) = Some (Inr ?bp)"
      using d(1) Inr x l2 hid la ri by (simp add: simulate_def Let_def)
    have wf1: "wf_store cfg ?h1" by (rule wf_store_expand [OF wf e(4,5)])
    have "leaf \<in> set ext" using e(1,3) ne by simp
    then have l0: "0 \<noteq> leaf" using e(2) by auto
    have n0: "?h1 ! 0 = h ! 0" by (rule expand_old_nodes [OF e(4) l0 len])
    have len1: "0 < length ?h1" using wf1 by (simp add: wf_store_def)
    have wf2: "wf_store cfg (fst ?bp)"
      by (rule wf_store_same_shape [OF wf1]) (simp_all add: backpropagate_shape)
    have "0 \<notin> set ext" using e(2) by auto
    then have "count_list ext 0 = 0" by (simp add: count_list_0_iff)
    then have c0: "count_list sp' 0 = 1"
      using e(1) by simp
    have vc: "visit_count (fst ?bp ! 0) = Suc (visit_count (h ! 0))"
      using backpropagate_visit_count [OF len1, of cfg sp' v mms] c0 n0 by simp
    have ch: "children (fst ?bp ! 0) \<noteq> []"
      using root n0 by (simp add: backpropagate_shape)
    show ?thesis
      using sim wf2 vc ch by auto
  qed
qed

lemma simulate_unexpanded:
  assumes "0 < length h" "children (h ! 0) = []"
  shows "simulate cfg m (h, mms) = Some (Inl IndexError)"
proof -
  have "descend cfg h mms 0 [0] None = Some (Inr (0, [0], None))"
    using assms by (subst descend.simps) (simp add: Node_expanded_def)
  then show ?thesis by (simp add: simulate_def)
qed

lemma simulations_spec:
  assumes "wf_store cfg h" "children (h ! 0) \<noteq> []"
  shows "\<exists>res. simulations n cfg m (h, mms) = Some res
     \<and> (\<forall>h' mms'. res = Inr (h', mms') \<longrightarrow>
           wf_store cfg h' \<and> children (h' ! 0) \<noteq> []
           \<and> visit_count (h' ! 0) = visit_count (h ! 0) + n)
     \<and> (0 < pb_c_base cfg \<longrightarrow> (\<exists>x. res = Inr x))"
  using assms
proof (induction n arbitrary: h mms)
  case 0
  then show ?case by simp
next
  case (Suc n)
  from simulate_spec [OF Suc.prems, of m mms] obtain res where
    r: "simulate cfg m (h, mms) = Some res"
      "\<forall>h' mms'. res = Inr (h', mms') \<longrightarrow>
           wf_store cfg h' \<and> children (h' ! 0) \<noteq> []
           \<and> visit_count (h' ! 0) = Suc (visit_count (h ! 0))"
      "0 < pb_c_base cfg \<longrightarrow> (\<exists>x. res = Inr x)"
    by blast
  show ?case
  proof (cases res)
    case (Inl e)
    then show ?thesis using r by auto
  next
    case (Inr x)
    obtain h1 mms1 where x: "x = (h1, mms1)" by (cases x) auto
    from r(2) Inr x have h1: "wf_store cfg h1" "children (h1 ! 0) \<noteq> []"
      "visit_count (h1 ! 0) = Suc (visit_count (h ! 0))" by auto
    from Suc.IH [OF h1(1,2), of mms1] obtain res' where
      r': "simulations n cfg m (h1, mms1) = Some res'"
        "\<forall>h' mms'. res' = Inr (h', mms') \<longrightarrow>
           wf_store cfg h' \<and> children (h' ! 0) \<noteq> []
           \<and> visit_count (h' ! 0) = visit_count (h1 ! 0) + n"
        "0 < pb_c_base cfg \<longrightarrow> (\<exists>x. res' = Inr x)"
      by blast
    have "simulations (Suc n) cfg m (h, mms) = Some res'"
      using r(1) Inr x r'(1) by simp
    then show ?thesis using r' h1(3) by auto
  qed
qed

lemma simulations_unexpanded:
  assumes "0 < length h" "children (h ! 0) = []"
  shows "simulations n cfg m (h, mms) = (if n = 0 then Some (Inr (h, mms)) else Some (Inl IndexError))"
  using assms by (cases n) (simp_all add: simulate_unexpanded)

section \<open>MCTS.run\<close>


lemma MCTS_run_eq:
  "MCTS_run cfg m obs flag noise =
     (case simulations (nat (num_simulations cfg)) cfg m
             (root_store cfg m obs flag noise, MinMaxStats_init) of
        None \<Rightarrow> None
      | Some (Inl e) \<Rightarrow> Some (Inl e)
      | Some (Inr hs) \<Rightarrow> Some (Inr (fst hs)))"
  by (simp add: MCTS_run_def root_store_def Let_def split: prod.splits)

lemma root_store_spec:
  fixes m :: "('o, 'h) model"
  shows "wf_store cfg (root_store cfg m obs flag noise)
   \<and> visit_count (root_store cfg m obs flag noise ! 0) = 0
   \<and> (children (root_store cfg m obs flag noise ! 0) = [] \<longleftrightarrow> action_space cfg = [])"
proof -
  obtain v0 er l hid where ii: "initial_inference m obs = (v0, er, l, hid)"
    by (cases "initial_inference m obs") auto
  let ?h0 = "[Node_init 0 :: 'h Node]"
  let ?h1 = "Node_expand ?h0 0 (action_space cfg) er l hid"
  have l0: "0 < length ?h0" and c0: "children (?h0 ! 0) = []"
    by (simp_all add: Node_init_def)
  have wf1: "wf_store cfg ?h1"
    by (rule wf_store_expand [OF wf_store_root l0 c0])
  have vc1: "visit_count (?h1 ! 0) = 0"
    using expand_fields [OF l0, of "action_space cfg" er l hid] by (simp add: Node_init_def)
  have ch1: "children (?h1 ! 0) = [] \<longleftrightarrow> action_space cfg = []"
  proof (cases "action_space cfg = []")
    case True
    then have "dict_keys (action_space cfg) = []" by (simp add: dict_keys_Nil_iff)
    then show ?thesis using True by (simp add: Node_expand_fresh [OF l0 c0])
  next
    case False
    from expand_expanded [OF l0 c0 False] show ?thesis using False by simp
  qed
  show ?thesis
  proof (cases flag)
    case False
    then have "root_store cfg m obs flag noise = ?h1"
      by (simp add: root_store_def ii)
    then show ?thesis using wf1 vc1 ch1 by simp
  next
    case True
    then have rs: "root_store cfg m obs flag noise
        = Node_add_exploration_noise ?h1 0 (root_exploration_fraction cfg) noise"
      by (simp add: root_store_def ii)
    have "wf_store cfg (Node_add_exploration_noise ?h1 0 (root_exploration_fraction cfg) noise)"
      by (rule wf_store_same_shape [OF wf1]) (simp_all add: noise_shape)
    then show ?thesis
      unfolding rs using vc1 ch1 by (simp add: noise_shape)
  qed
qed

lemma run_spec:
  "\<exists>res. MCTS_run cfg m obs flag noise = Some res
     \<and> (\<forall>h. res = Inr h \<longrightarrow>
           wf_store cfg h \<and> visit_count (h ! 0) = nat (num_simulations cfg))
     \<and> (0 < pb_c_base cfg \<and> action_space cfg \<noteq> [] \<longrightarrow> (\<exists>h. res = Inr h))"
proof -
  let ?rs = "root_store cfg m obs flag noise"
  let ?n = "nat (num_simulations cfg)"
  have rs: "wf_store cfg ?rs" "visit_count (?rs ! 0) = 0"
    "children (?rs ! 0) = [] \<longleftrightarrow> action_space cfg = []"
    using root_store_spec [of cfg m obs flag noise] by blast+
  show ?thesis
  proof (cases "action_space cfg = []")
    case True
    have "0 < length ?rs" using rs(1) by (simp add: wf_store_def)
    moreover have "children (?rs ! 0) = []" using rs(3) True by simp
    ultimately have "simulations ?n cfg m (?rs, MinMaxStats_init)
        = (if ?n = 0 then Some (Inr (?rs, MinMaxStats_init)) else Some (Inl IndexError))"
      by (rule simulations_unexpanded)
    then show ?thesis
      using rs(1,2) True by (cases "?n = 0") (simp_all add: MCTS_run_eq)
  next
    case False
    then have ex: "children (?rs ! 0) \<noteq> []" using rs(3) by simp
    from simulations_spec [OF rs(1) ex, of ?n m MinMaxStats_init] obtain res where
      r: "simulations ?n cfg m (?rs, MinMaxStats_init) = Some res"
        "\<forall>h' mms'. res = Inr (h', mms') \<longrightarrow>
           wf_store cfg h' \<and> children (h' ! 0) \<noteq> []
           \<and> visit_count (h' ! 0) = visit_count (?rs ! 0) + ?n"
        "0 < pb_c_base cfg \<longrightarrow> (\<exists>x. res = Inr x)"
      by blast
    show ?thesis
    proof (cases res)
      case (Inl e)
      then show ?thesis using r by (auto simp: MCTS_run_eq)
    next
      case (Inr x)
      obtain h' mms' where x: "x = (h', mms')" by (cases x) auto
      have "MCTS_run cfg m obs flag noise = Some (Inr h')"
        using r(1) Inr x by (simp add: MCTS_run_eq)
      moreover have "wf_store cfg h' \<and> visit_count (h' ! 0) = ?n"
        using r(2) Inr x rs(2) by simp
      ultimately show ?thesis by simp
    qed
  qed
qed

lemma simulate_event:
  assumes "simulate cfg m s = Some (Inr s')"
  shows "backprop_event cfg m s s'"
proof -
  from assms obtain leaf sp la where
    d: "descend cfg (fst s) (snd s) 0 [0] None = Some (Inr (leaf, sp, la))"
    by (auto simp: simulate_def split: option.splits sum.splits)
  from assms d have l2: "2 \<le> length sp"
    by (auto simp: simulate_def split: if_splits)
  from assms d l2 obtain a where la: "la = Some a"
    by (cases la) (auto simp: simulate_def Let_def)
  from assms d l2 la obtain hid where
    hid: "hidden_state (fst s ! (sp ! (length sp - 2))) = Some hid"
    by (cases "hidden_state (fst s ! (sp ! (length sp - 2)))") (auto simp: simulate_def Let_def)
  obtain v rew l hid' where ri: "recurrent_inference m hid a = (v, rew, l, hid')"
    by (cases "recurrent_inference m hid a") auto
  from assms d l2 la hid ri have
    "s' = MCTS_backpropagate cfg (Node_expand (fst s) leaf (action_space cfg) rew l hid') sp v (snd s)"
    by (simp add: simulate_def Let_def del: MCTS_backpropagate.simps)
  with d l2 la hid ri show ?thesis
    unfolding backprop_event_def by blast
qed

lemma simulations_chain:
  assumes "wf_store cfg h" "children (h ! 0) \<noteq> []"
    and "simulations n cfg m (h, mms) = Some (Inr s')"
  shows "\<exists>events. length events = n \<and> event_chain cfg m (h, mms) events
           \<and> s' = last ((h, mms) # events)"
  using assms
proof (induction n arbitrary: h mms)
  case 0
  then show ?case by simp
next
  case (Suc n)
  from simulate_spec [OF Suc.prems(1,2), of m mms] obtain res where
    r: "simulate cfg m (h, mms) = Some res"
      "\<forall>h' mms'. res = Inr (h', mms') \<longrightarrow>
           wf_store cfg h' \<and> children (h' ! 0) \<noteq> []
           \<and> visit_count (h' ! 0) = Suc (visit_count (h ! 0))"
    by blast
  from Suc.prems(3) r(1) obtain s1 where s1: "res = Inr s1"
    by (cases res) auto
  obtain h1 mms1 where hm: "s1 = (h1, mms1)" by (cases s1) auto
  from r(2) s1 hm have w1: "wf_store cfg h1" "children (h1 ! 0) \<noteq> []"
    "visit_count (h1 ! 0) = Suc (visit_count (h ! 0))" by auto
  have rest: "simulations n cfg m (h1, mms1) = Some (Inr s')"
    using Suc.prems(3) r(1) s1 hm by simp
  from Suc.IH [OF w1(1,2) rest] obtain events where
    e: "length events = n" "event_chain cfg m (h1, mms1) events"
      "s' = last ((h1, mms1) # events)"
    by blast
  have ev: "backprop_event cfg m (h, mms) (h1, mms1)"
    using simulate_event [of cfg m "(h, mms)" "(h1, mms1)"] r(1) s1 hm by simp
  have "length ((h1, mms1) # events) = Suc n" using e(1) by simp
  moreover have "event_chain cfg m (h, mms) ((h1, mms1) # events)"
    using ev w1(3) e(2) by simp
  moreover have "s' = last ((h, mms) # (h1, mms1) # events)"
    using e(3) by simp
  ultimately show ?case by blast
qed

lemma run_chain:
  assumes "MCTS_run cfg m obs flag noise = Some (Inr h)"
  shows "\<exists>events. length events = nat (num_simulations cfg)
     \<and> event_chain cfg m (root_store cfg m obs flag noise, MinMaxStats_init) events
     \<and> h = fst (last ((root_store cfg m obs flag noise, MinMaxStats_init) # events))"
proof -
  let ?rs = "root_store cfg m obs flag noise"
  let ?n = "nat (num_simulations cfg)"
  have rs: "wf_store cfg ?rs" "children (?rs ! 0) = [] \<longleftrightarrow> action_space cfg = []"
    using root_store_spec [of cfg m obs flag noise] by blast+
  from assms obtain s' where
    s: "simulations ?n cfg m (?rs, MinMaxStats_init) = Some (Inr s')" "h = fst s'"
    by (auto simp: MCTS_run_eq split: option.splits sum.splits)
  show ?thesis
  proof (cases "children (?rs ! 0) = []")
    case True
    have "0 < length ?rs" using rs(1) by (simp add: wf_store_def)
    from simulations_unexpanded [OF this True, of ?n cfg m MinMaxStats_init] s(1)
    have "?n = 0" "s' = (?rs, MinMaxStats_init)" by (auto split: if_splits)
    then show ?thesis using s(2) by (intro exI [of _ "[]"]) simp
  next
    case False
    from simulations_chain [OF rs(1) False s(1)] s(2) show ?thesis by blast
  qed
qed

text \<open>
  Claim C3. \<open>MCTS.run\<close> always returns or raises. When it returns, the search was a chain of
  exactly \<open>num_simulations\<close> backpropagation events (none for a negative number), each one
  call of \<open>MCTS.backpropagate\<close> that raised the visit count of the root by one, and the
  visit count of the root, 0 at creation, is \<open>num_simulations\<close>. It returns whenever
  \<open>pb_c_base\<close> is positive and the action space is not empty.
\<close>

theorem run_visit_count:
  "(\<exists>res. MCTS_run cfg m obs flag noise = Some res)
   \<and> (\<forall>h. MCTS_run cfg m obs flag noise = Some (Inr h) \<longrightarrow>
          visit_count (h ! 0) = nat (num_simulations cfg))
   \<and> (0 < pb_c_base cfg \<and> action_space cfg \<noteq> [] \<longrightarrow>
          (\<exists>h. MCTS_run cfg m obs flag noise = Some (Inr h)))
   \<and> visit_count (root_store cfg m obs flag noise ! 0) = 0
   \<and> (\<forall>h. MCTS_run cfg m obs flag noise = Some (Inr h) \<longrightarrow>
          (\<exists>events. length events = nat (num_simulations cfg)
             \<and> event_chain cfg m (root_store cfg m obs flag noise, MinMaxStats_init) events
             \<and> h = fst (last ((root_store cfg m obs flag noise, MinMaxStats_init) # events))))"
proof -
  have a: "(\<exists>res. MCTS_run cfg m obs flag noise = Some res)
   \<and> (\<forall>h. MCTS_run cfg m obs flag noise = Some (Inr h) \<longrightarrow>
          visit_count (h ! 0) = nat (num_simulations cfg))
   \<and> (0 < pb_c_base cfg \<and> action_space cfg \<noteq> [] \<longrightarrow>
          (\<exists>h. MCTS_run cfg m obs flag noise = Some (Inr h)))"
    using run_spec [of cfg m obs flag noise] by auto
  have b: "visit_count (root_store cfg m obs flag noise ! 0) = 0"
    using root_store_spec [of cfg m obs flag noise] by blast
  have c: "\<forall>h. MCTS_run cfg m obs flag noise = Some (Inr h) \<longrightarrow>
          (\<exists>events. length events = nat (num_simulations cfg)
             \<and> event_chain cfg m (root_store cfg m obs flag noise, MinMaxStats_init) events
             \<and> h = fst (last ((root_store cfg m obs flag noise, MinMaxStats_init) # events)))"
    using run_chain [of cfg m obs flag noise] by blast
  show ?thesis using a b c by (intro conjI) blast+
qed

lemma wf_store_keys:
  assumes "wf_store cfg h" "r < length h" "Node_expanded (h ! r)"
  shows "distinct (map fst (children (h ! r)))
     \<and> set (map fst (children (h ! r))) = set (action_space cfg)
     \<and> length (children (h ! r)) = card (set (action_space cfg))"
proof -
  have k: "map fst (children (h ! r)) = dict_keys (action_space cfg)"
    using assms unfolding wf_store_def Node_expanded_def by auto
  have "length (children (h ! r)) = length (dict_keys (action_space cfg))"
    using k by (metis length_map)
  also have "\<dots> = card (set (action_space cfg))"
    using distinct_card [OF distinct_dict_keys, of "action_space cfg"]
    by (simp add: set_dict_keys)
  finally show ?thesis
    unfolding k by (simp add: distinct_dict_keys set_dict_keys)
qed

text \<open>
  Claim C9. Every expansion inside \<open>MCTS.run\<close> is given the configured action space, so in
  the returned tree every expanded node has exactly one child per action of the action
  space.
\<close>

theorem run_full_action_space:
  "(\<forall>h. MCTS_run cfg m obs flag noise = Some (Inr h) \<longrightarrow>
      (\<forall>r<length h. Node_expanded (h ! r) \<longrightarrow>
         distinct (map fst (children (h ! r)))
         \<and> set (map fst (children (h ! r))) = set (action_space cfg)
         \<and> length (children (h ! r)) = card (set (action_space cfg))))
   \<and> (0 < pb_c_base cfg \<and> action_space cfg \<noteq> [] \<longrightarrow>
          (\<exists>h. MCTS_run cfg m obs flag noise = Some (Inr h)))"
proof (intro conjI allI impI)
  fix h r
  assume run: "MCTS_run cfg m obs flag noise = Some (Inr h)"
    and r: "r < length h" and ex: "Node_expanded (h ! r)"
  from run run_spec [of cfg m obs flag noise] have "wf_store cfg h" by auto
  from wf_store_keys [OF this r ex]
  show "distinct (map fst (children (h ! r)))"
    and "set (map fst (children (h ! r))) = set (action_space cfg)"
    and "length (children (h ! r)) = card (set (action_space cfg))"
    by blast+
next
  assume "0 < pb_c_base cfg \<and> action_space cfg \<noteq> []"
  then show "\<exists>h. MCTS_run cfg m obs flag noise = Some (Inr h)"
    using run_spec [of cfg m obs flag noise] by auto
qed


lemma run0_eval: "MCTS_run cfg0 model0 () False [] = Some (Inr run0_result)"
  by (simp add: MCTS_run_def model0_def cfg0_def Node_expand_def policy_dict_def add_child_def
      Node_init_def logits0_def Let_def simulate_def descend.simps Node_expanded_def
      MCTS_select_child_def MCTS_ucb_score_def MinMaxStats_normalize_def MinMaxStats_init_def
      Node_value_def tuple_gt_def MinMaxStats_update_def run0_result_def)

theorem run_visit_count_witness:
  "0 < pb_c_base cfg0 \<and> action_space cfg0 \<noteq> []
   \<and> MCTS_run cfg0 model0 () False [] = Some (Inr run0_result)
   \<and> visit_count (run0_result ! 0) = nat (num_simulations cfg0)
   \<and> nat (num_simulations cfg0) = 1
   \<and> (\<exists>events. length events = 1
         \<and> event_chain cfg0 model0 (root_store cfg0 model0 () False [], MinMaxStats_init) events
         \<and> run0_result
             = fst (last ((root_store cfg0 model0 () False [], MinMaxStats_init) # events)))"
proof -
  have n: "nat (num_simulations cfg0) = 1" "0 < pb_c_base cfg0" "action_space cfg0 \<noteq> []"
    by (simp_all add: cfg0_def)
  from run_visit_count [of cfg0 model0 "()" False "[]"] run0_eval
  have v: "visit_count (run0_result ! 0) = nat (num_simulations cfg0)"
    and "\<exists>events. length events = nat (num_simulations cfg0)
         \<and> event_chain cfg0 model0 (root_store cfg0 model0 () False [], MinMaxStats_init) events
         \<and> run0_result
             = fst (last ((root_store cfg0 model0 () False [], MinMaxStats_init) # events))"
    by blast+
  then have "\<exists>events. length events = 1
         \<and> event_chain cfg0 model0 (root_store cfg0 model0 () False [], MinMaxStats_init) events
         \<and> run0_result
             = fst (last ((root_store cfg0 model0 () False [], MinMaxStats_init) # events))"
    unfolding n(1) by simp
  with n v run0_eval show ?thesis by (intro conjI)
qed

theorem run_full_action_space_witness:
  "0 < pb_c_base cfg0 \<and> action_space cfg0 \<noteq> []
   \<and> MCTS_run cfg0 model0 () False [] = Some (Inr run0_result)
   \<and> Node_expanded (run0_result ! 3) \<and> map fst (children (run0_result ! 3)) = [0, 1, 2]
   \<and> set (map fst (children (run0_result ! 3))) = set (action_space cfg0)"
proof -
  have "3 < length run0_result" "Node_expanded (run0_result ! 3)"
    "map fst (children (run0_result ! 3)) = [0, 1, 2]"
    by (simp_all add: run0_result_def Node_expanded_def)
  then show ?thesis
    using run_full_action_space [of cfg0 model0 "()" False "[]"] run0_eval
    by (simp add: cfg0_def)
qed

text \<open>
  The scenario of the specification, run on the code: the selected child is the one of
  action 2 (reference 3), not of action 1, and the root ends with visit count 1, not 2.
\<close>

theorem run_scenario_counterexample:
  "MCTS_run cfg0 model0 () False [] = Some (Inr run0_result)
   \<and> MCTS_select_child cfg0 (root_store cfg0 model0 () False []) 0 MinMaxStats_init = Inr (2, 3)
   \<and> children (run0_result ! 0) = [(0, 1), (1, 2), (2, 3)]
   \<and> map visit_count (take 4 run0_result) = [1, 0, 0, 1]
   \<and> visit_count (run0_result ! 0) \<noteq> 2
   \<and> visit_count (run0_result ! 2) \<noteq> 1"
proof -
  have "MCTS_select_child cfg0 (root_store cfg0 model0 () False []) 0 MinMaxStats_init = Inr (2, 3)"
    by (simp add: root_store_def model0_def cfg0_def Node_expand_def policy_dict_def
        add_child_def Node_init_def logits0_def Let_def MCTS_select_child_def MCTS_ucb_score_def
        MinMaxStats_normalize_def MinMaxStats_init_def Node_value_def tuple_gt_def)
  moreover have "children (run0_result ! 0) = [(0, 1), (1, 2), (2, 3)]"
    "map visit_count (take 4 run0_result) = [1, 0, 0, 1]"
    "visit_count (run0_result ! 0) \<noteq> 2" "visit_count (run0_result ! 2) \<noteq> 1"
    by (simp_all add: run0_result_def Node_init_def)
  ultimately show ?thesis using run0_eval by simp
qed


text \<open>
  Claim C2, amended. For the action space \<open>[0,1,2]\<close>, a root expanded with the priors
  \<open>[0.2, 0.5, 0.3]\<close>, one simulation, no exploration noise and a positive \<open>pb_c_base\<close>:
  the root's visit count is still 0 when the children are scored, so every UCB score is 0
  and the tie goes to the largest action; the simulation selects the child of action 2,
  expands it and backpropagates into the root and that child, which both end with visit
  count 1, the children of actions 0 and 1 staying unvisited and unexpanded.
\<close>

theorem run_scenario:
  fixes m :: "('o, 'h) model"
  assumes as: "action_space cfg = [0, 1, 2]" and n: "num_simulations cfg = 1"
    and base: "0 < pb_c_base cfg"
    and ii: "initial_inference m obs = (v0, r0, logits0, hid)"
    and ri: "recurrent_inference m hid 2 = (v, rew, l, hid')"
  shows "\<exists>h. MCTS_run cfg m obs False noise = Some (Inr h)
     \<and> MCTS_select_child cfg (root_store cfg m obs False noise) 0 MinMaxStats_init = Inr (2, 3)
     \<and> children (h ! 0) = [(0, 1), (1, 2), (2, 3)]
     \<and> map prior (take 3 (drop 1 h)) = [1 / 5, 1 / 2, 3 / 10]
     \<and> map visit_count (take 4 h) = [1, 0, 0, 1]
     \<and> Node_expanded (h ! 3) \<and> \<not> Node_expanded (h ! 1) \<and> \<not> Node_expanded (h ! 2)
     \<and> value_sum (h ! 0) = v \<and> value_sum (h ! 3) = r0 + discount cfg * v"
proof -
  define root :: "'h Node" where
    "root = \<lparr>visit_count = 0, to_play = - 1, prior = 0, value_sum = 0,
              children = [(0, 1), (1, 2), (2, 3)], hidden_state = Some hid, reward = r0\<rparr>"
  define rs where "rs = [root, Node_init (1 / 5), Node_init (1 / 2), Node_init (3 / 10)]"
  define leaf :: "'h Node" where
    "leaf = \<lparr>visit_count = 0, to_play = - 1, prior = 3 / 10, value_sum = 0,
              children = [(0, 4), (1, 5), (2, 6)], hidden_state = Some hid', reward = rew\<rparr>"
  define z where "z = exp (l 0) + exp (l 1) + exp (l 2)"
  define h1 where
    "h1 = [root, Node_init (1 / 5), Node_init (1 / 2), leaf,
           Node_init (exp (l 0) / z), Node_init (exp (l 1) / z), Node_init (exp (l 2) / z)]"
  define h where
    "h = [root\<lparr>value_sum := v, visit_count := 1\<rparr>, Node_init (1 / 5), Node_init (1 / 2),
          leaf\<lparr>value_sum := r0 + discount cfg * v, visit_count := 1\<rparr>,
          Node_init (exp (l 0) / z), Node_init (exp (l 1) / z), Node_init (exp (l 2) / z)]"
  have rs: "root_store cfg m obs False noise = rs"
    by (simp add: root_store_def ii as Node_expand_def policy_dict_def add_child_def
        Node_init_def logits0_def Let_def rs_def root_def)
  have nodes: "rs ! 0 = root" "rs ! Suc 0 = Node_init (1 / 5)" "rs ! 2 = Node_init (1 / 2)"
    "rs ! 3 = Node_init (3 / 10)"
    by (simp_all add: rs_def)
  have score: "MCTS_ucb_score cfg root (Node_init p) MinMaxStats_init = Inr 0" for p
    by (simp add: ucb_score_eq [OF base] ucb_formula_def Node_init_def root_def
        MinMaxStats_normalize_def MinMaxStats_init_def Node_value_def)
  have ch: "children root = [(0, 1), (1, 2), (2, 3)]" by (simp add: root_def)
  have sel: "MCTS_select_child cfg rs 0 MinMaxStats_init = Inr (2, 3)"
    by (simp add: MCTS_select_child_def nodes ch score tuple_gt_def)
  have e0: "Node_expanded (rs ! 0)" and e3: "\<not> Node_expanded (rs ! 3)"
    by (simp_all add: nodes Node_expanded_def ch Node_init_def)
  have d1: "descend cfg rs MinMaxStats_init 3 [0, 3] (Some 2) = Some (Inr (3, [0, 3], Some 2))"
    by (subst descend.simps) (simp add: e3)
  have d0: "descend cfg rs MinMaxStats_init 0 [0] None = Some (Inr (3, [0, 3], Some 2))"
    by (subst descend.simps) (simp add: e0 sel d1)
  have ex: "Node_expand rs 3 [0, 1, 2] rew l hid' = h1"
    by (simp add: Node_expand_def policy_dict_def add_child_def Node_init_def Let_def
        rs_def h1_def leaf_def z_def)
  have bp: "fst (MCTS_backpropagate cfg h1 [0, 3] v MinMaxStats_init) = h"
    unfolding h1_def h_def by (simp add: Let_def root_def leaf_def)
  have hs0: "hidden_state (rs ! 0) = Some hid" by (simp add: nodes root_def)
  obtain mms' where bpq: "MCTS_backpropagate cfg h1 [0, 3] v MinMaxStats_init = (h, mms')"
    using bp by (cases "MCTS_backpropagate cfg h1 [0, 3] v MinMaxStats_init") simp
  have sim: "simulate cfg m (rs, MinMaxStats_init) = Some (Inr (h, mms'))"
    unfolding simulate_def by (simp only: d0 fst_conv snd_conv) (simp add: hs0 ri as ex bpq del: MCTS_backpropagate.simps)
  have run: "MCTS_run cfg m obs False noise = Some (Inr h)"
    by (simp add: MCTS_run_eq rs n sim)
  have props: "children (h ! 0) = [(0, 1), (1, 2), (2, 3)]"
    "map prior (take 3 (drop 1 h)) = [1 / 5, 1 / 2, 3 / 10]"
    "map visit_count (take 4 h) = [1, 0, 0, 1]"
    "Node_expanded (h ! 3)" "\<not> Node_expanded (h ! 1)" "\<not> Node_expanded (h ! 2)"
    "value_sum (h ! 0) = v" "value_sum (h ! 3) = r0 + discount cfg * v"
    by (simp_all add: h_def root_def leaf_def Node_init_def Node_expanded_def)
  show ?thesis
    unfolding rs using run sel props by (intro exI [of _ h] conjI)
qed

theorem run_scenario_witness:
  "action_space cfg0 = [0, 1, 2] \<and> num_simulations cfg0 = 1 \<and> 0 < pb_c_base cfg0
   \<and> initial_inference model0 () = (0, 0, logits0, ())
   \<and> recurrent_inference model0 () 2 = (1 / 2, 1, (\<lambda>_. 0), ())
   \<and> (\<exists>h. MCTS_run cfg0 model0 () False [] = Some (Inr h)
         \<and> map visit_count (take 4 h) = [1, 0, 0, 1]
         \<and> value_sum (h ! 3) = 0 + discount cfg0 * (1 / 2))"
proof -
  have a: "action_space cfg0 = [0, 1, 2]" "num_simulations cfg0 = 1" "0 < pb_c_base cfg0"
    by (simp_all add: cfg0_def)
  have b: "initial_inference model0 () = (0, 0, logits0, ())"
    "recurrent_inference model0 () 2 = (1 / 2, 1, (\<lambda>_. 0), ())"
    by (simp_all add: model0_def)
  from run_scenario [OF a b, of "[]"] obtain h where
    "MCTS_run cfg0 model0 () False [] = Some (Inr h)"
    "map visit_count (take 4 h) = [1, 0, 0, 1]"
    "value_sum (h ! 3) = 0 + discount cfg0 * (1 / 2)"
    by (elim exE conjE)
  then have "\<exists>h. MCTS_run cfg0 model0 () False [] = Some (Inr h)
         \<and> map visit_count (take 4 h) = [1, 0, 0, 1]
         \<and> value_sum (h ! 3) = 0 + discount cfg0 * (1 / 2)"
    by (intro exI [of _ h] conjI)
  with a b show ?thesis by (intro conjI)
qed

section \<open>SelfPlay.play\_game\<close>


lemma store_search_statistics_lengths:
  assumes "GameHistory_store_search_statistics gh h r acts = Inr gh'"
  shows "history gh' = history gh" "rewards gh' = rewards gh"
    "observation_history gh' = observation_history gh"
    "length (child_visits gh') = Suc (length (child_visits gh))"
    "length (root_values gh') = Suc (length (root_values gh))"
  using assms
  by (auto simp: GameHistory_store_search_statistics_def Let_def split: sum.splits)

lemma play_move_invariant:
  assumes "play_move cfg m env rnd temperature st = Some (Inr st')"
    and "gh_invariant (game_history st)"
  shows "gh_invariant (game_history st')"
proof -
  let ?k = "length (history (game_history st))"
  from assms(1) obtain h where h: "MCTS_run cfg m (observation st) True (fst (rnd ?k)) = Some (Inr h)"
    by (auto simp: play_move_def Let_def split: option.splits sum.splits)
  from assms(1) h obtain a where
    a: "select_action h 0 temperature (fst (snd (rnd ?k))) (snd (snd (rnd ?k))) = Inr a"
    by (auto simp: play_move_def Let_def split: sum.splits)
  obtain g' obs' rew d' where s: "step env (game st) a = (g', obs', rew, d')"
    by (cases "step env (game st) a") auto
  let ?gh3 = "(game_history st)\<lparr>observation_history := observation_history (game_history st) @ [obs'],
                 rewards := rewards (game_history st) @ [rew],
                 history := history (game_history st) @ [a]\<rparr>"
  from assms(1) h a s obtain gh4 where
    g: "GameHistory_store_search_statistics ?gh3 h 0 (action_space cfg) = Inr gh4"
      "game_history st' = gh4"
    by (auto simp: play_move_def Let_def split: sum.splits)
  from store_search_statistics_lengths [OF g(1)] assms(2) show ?thesis
    unfolding g(2) gh_invariant_def by simp
qed

lemma play_move_returns:
  "\<exists>res. play_move cfg m env rnd temperature st = Some res"
proof -
  let ?k = "length (history (game_history st))"
  from run_spec [of cfg m "observation st" True "fst (rnd ?k)"] obtain r where
    "MCTS_run cfg m (observation st) True (fst (rnd ?k)) = Some r" by blast
  then show ?thesis
    by (auto simp: play_move_def Let_def split: sum.splits prod.splits)
qed

lemma play_loop_invariant:
  "gh_invariant (game_history st) \<Longrightarrow>
     \<exists>res. play_loop cfg m env rnd temperature st = Some res
       \<and> (\<forall>st'. res = Inr st' \<longrightarrow> gh_invariant (game_history st'))"
proof (induction cfg m env rnd temperature st rule: play_loop.induct)
  case (1 cfg m env rnd temperature st)
  show ?case
  proof (cases "\<not> is_done st \<and> int (length (history (game_history st))) < max_moves cfg")
    case False
    then have "play_loop cfg m env rnd temperature st = Some (Inr st)"
      by (subst play_loop.simps) (simp only: if_False)
    then show ?thesis using "1.prems" by simp
  next
    case True
    from play_move_returns [of cfg m env rnd temperature st] obtain res where
      res: "play_move cfg m env rnd temperature st = Some res" by blast
    show ?thesis
    proof (cases res)
      case (Inl e)
      then have "play_loop cfg m env rnd temperature st = Some (Inl e)"
        using res by (subst play_loop.simps) (simp add: True)
      then show ?thesis by simp
    next
      case (Inr st1)
      then have mv: "play_move cfg m env rnd temperature st = Some (Inr st1)"
        using res by simp
      have inv1: "gh_invariant (game_history st1)"
        by (rule play_move_invariant [OF mv "1.prems"])
      have "play_loop cfg m env rnd temperature st = play_loop cfg m env rnd temperature st1"
        by (subst play_loop.simps) (simp add: True mv)
      then show ?thesis
        using "1.IH" [OF True res Inr inv1] by simp
    qed
  qed
qed

text \<open>
  Claim C6. \<open>play_game\<close> always returns or raises; the history it returns satisfies
  \<open>len(history) == len(rewards) == len(child_visits) == len(root_values)\<close> and
  \<open>len(observation_history) == len(history) + 1\<close>; and every completed round of the episode
  loop keeps the invariant and adds one move.
\<close>

theorem game_history_invariant:
  "(\<exists>res. play_game cfg m env rnd temperature g0 = Some res)
   \<and> (\<forall>gh. play_game cfg m env rnd temperature g0 = Some (Inr gh) \<longrightarrow> gh_invariant gh)
   \<and> (\<forall>st st'. gh_invariant (game_history st)
          \<and> play_move cfg m env rnd temperature st = Some (Inr st') \<longrightarrow>
        gh_invariant (game_history st')
        \<and> length (history (game_history st')) = Suc (length (history (game_history st))))"
proof -
  obtain g obs where r: "reset env g0 = (g, obs)" by (cases "reset env g0") auto
  let ?gh = "(GameHistory_init (discount cfg))\<lparr>observation_history := [obs]\<rparr>"
  let ?st = "\<lparr>game = g, observation = obs, is_done = False, game_history = ?gh\<rparr>"
  have "gh_invariant (game_history ?st)"
    by (simp add: gh_invariant_def GameHistory_init_def)
  from play_loop_invariant [OF this, of cfg m env rnd temperature] obtain res where
    l: "play_loop cfg m env rnd temperature ?st = Some res"
      "\<forall>st'. res = Inr st' \<longrightarrow> gh_invariant (game_history st')"
    by blast
  have pg: "play_game cfg m env rnd temperature g0 =
      (case res of Inl e \<Rightarrow> Some (Inl e) | Inr st \<Rightarrow> Some (Inr (game_history st)))"
    using l(1) by (simp add: play_game_def r Let_def GameHistory_init_def)
  have a: "\<exists>res. play_game cfg m env rnd temperature g0 = Some res"
    unfolding pg by (cases res) simp_all
  have b: "\<forall>gh. play_game cfg m env rnd temperature g0 = Some (Inr gh) \<longrightarrow> gh_invariant gh"
    unfolding pg using l(2) by (cases res) auto
  have c: "\<forall>st st'. gh_invariant (game_history st)
          \<and> play_move cfg m env rnd temperature st = Some (Inr st') \<longrightarrow>
        gh_invariant (game_history st')
        \<and> length (history (game_history st')) = Suc (length (history (game_history st)))"
    using play_move_invariant play_move_history by blast
  show ?thesis using a b c by blast
qed


lemma game0_eval: "play_game cfg0 model0 env0 rnd0 (Temp 0) () = Some (Inr game0_result)"
proof -
  let ?gh = "\<lparr>observation_history = [()], history = [], rewards = [], child_visits = [],
              root_values = [], gh_discount = 997 / 1000\<rparr> :: unit GameHistory"
  let ?st0 = "\<lparr>game = (), observation = (), is_done = False, game_history = ?gh\<rparr>"
  let ?st1 = "\<lparr>game = (), observation = (), is_done = True, game_history = game0_result\<rparr>"
  have mv: "play_move cfg0 model0 env0 rnd0 (Temp 0) ?st0 = Some (Inr ?st1)"
    by (simp add: play_move_def rnd0_def env0_def game0_result_def
        GameHistory_store_search_statistics_def select_action_def argmax_def index_def
        MCTS_run_def model0_def cfg0_def Node_expand_def policy_dict_def add_child_def
        Node_add_exploration_noise_def mix_prior_def
        Node_init_def logits0_def Let_def simulate_def descend.simps Node_expanded_def
        MCTS_select_child_def MCTS_ucb_score_def MinMaxStats_normalize_def MinMaxStats_init_def
        Node_value_def tuple_gt_def MinMaxStats_update_def)
  have l1: "play_loop cfg0 model0 env0 rnd0 (Temp 0) ?st1 = Some (Inr ?st1)"
    by (subst play_loop.simps) simp
  have l0: "play_loop cfg0 model0 env0 rnd0 (Temp 0) ?st0 = Some (Inr ?st1)"
    by (subst play_loop.simps) (simp add: mv l1, simp add: cfg0_def)
  have r: "reset env0 () = ((), ())" by (simp add: env0_def)
  have init: "(GameHistory_init (discount cfg0))\<lparr>observation_history :=
      observation_history (GameHistory_init (discount cfg0)) @ [()]\<rparr> = ?gh"
    by (simp add: GameHistory_init_def cfg0_def)
  show ?thesis
    by (simp add: play_game_def r Let_def init l0)
qed

theorem game_history_invariant_witness:
  "play_game cfg0 model0 env0 rnd0 (Temp 0) () = Some (Inr game0_result)
   \<and> gh_invariant game0_result
   \<and> length (observation_history game0_result) = 2 \<and> length (history game0_result) = 1"
  using game_history_invariant [of cfg0 model0 env0 rnd0 "Temp 0" "()"] game0_eval
  by (simp add: game0_result_def)

end
